theory Spec2Isabelle
  imports Main "HOL-Library.Word" "HOL-Library.Multiset"
begin

section \<open>The sorting visualiser: data model\<close>

text \<open>
  A shallow embedding of \<^verbatim>\<open>src/visualise/visualiser.py\<close>, class
  \<^verbatim>\<open>SortingVisualiser\<close>. The image is a numpy array of shape
  (rows, columns, channels) and dtype uint8; the rank grid \<^verbatim>\<open>self.replaced\<close> is a
  numpy array of shape (rows, columns) whose cells are read back with \<^verbatim>\<open>int(...)\<close>;
  \<^verbatim>\<open>self.replace_dict\<close> is a list of dictionaries, one per row;
  \<^verbatim>\<open>self.swaps\<close> is a list of traces, one per row.

  A trace element is what the sorting algorithm recorded: a tuple of two positions
  (an in-place algorithm) or a cell value (an out-of-place algorithm, whose trace is the
  run of cell values that the slice assignments of \<^verbatim>\<open>visualise\<close> write into a row).
  The step and remainder arithmetic is over Python's unbounded integers; the float
  division \<^verbatim>\<open>int(a / b)\<close> is taken as exact (truncation of the quotient).
\<close>

type_synonym pixel = "8 word list"
type_synonym image = "pixel list list"
type_synonym grid = "int list list"

datatype step = Swap int int | Val int

type_synonym trace = "step list"

datatype error = IndexError | KeyError | ValueError | TypeError | ZeroDivisionError

record engine =
  original :: image
  rows :: nat
  columns :: nat
  replaced :: grid
  replace_dict :: "(int \<rightharpoonup> pixel) list"
  swaps :: "trace list"
  max_swaps :: int
  sorting_methods :: "string \<rightharpoonup> (int list \<Rightarrow> trace)"

text \<open>
  A method either raises, leaving the engine as it was at the raise, or returns a value
  and the engine as it is then.
\<close>

datatype 'a outcome = Raised error engine | Returned 'a engine

section \<open>Python and numpy indexing\<close>

text \<open>A slice bound of a sequence of length \<open>n\<close>: negative bounds count from the end, and
  every bound is clipped to the sequence.\<close>

definition slice_bound :: "nat \<Rightarrow> int \<Rightarrow> nat" where
  "slice_bound n i = (if i < 0 then nat (max (i + int n) 0) else nat (min i (int n)))"

definition py_slice :: "'a list \<Rightarrow> int \<Rightarrow> int \<Rightarrow> 'a list" where
  "py_slice xs lo hi =
     (let a = slice_bound (length xs) lo; b = slice_bound (length xs) hi
      in take (b - a) (drop a xs))"

text \<open>An integer index into an axis of length \<open>n\<close>: negative indices count from the end,
  anything else out of range raises IndexError (here \<open>None\<close>).\<close>

definition np_index :: "nat \<Rightarrow> int \<Rightarrow> nat option" where
  "np_index n i =
     (if 0 \<le> i \<and> i < int n then Some (nat i)
      else if - int n \<le> i \<and> i < 0 then Some (nat (i + int n))
      else None)"

text \<open>Running a fallible function over a list, in order; the first error ends the run.\<close>

fun traverse :: "('a \<Rightarrow> error + 'b) \<Rightarrow> 'a list \<Rightarrow> error + 'b list" where
  "traverse f [] = Inr []"
| "traverse f (x # xs) =
     (case f x of
        Inl e \<Rightarrow> Inl e
      | Inr y \<Rightarrow> (case traverse f xs of Inl e \<Rightarrow> Inl e | Inr ys \<Rightarrow> Inr (y # ys)))"

section \<open>The rank codec\<close>

text \<open>
  \<^verbatim>\<open>__replace_with_integers\<close>: row \<open>i\<close> of the rank grid is \<open>0, 1, ..., columns - 1\<close>, and
  the dictionary of row \<open>i\<close> maps \<open>j\<close> to the pixel at \<open>(i, j)\<close> of the original.
\<close>

definition replace_with_integers :: "nat \<Rightarrow> nat \<Rightarrow> image \<Rightarrow> grid \<times> (int \<rightharpoonup> pixel) list" where
  "replace_with_integers R C img =
     (map (\<lambda>i. map int [0..<C]) [0..<R],
      map (\<lambda>i. fold (\<lambda>j temp_dict. temp_dict(int j \<mapsto> img ! i ! j)) [0..<C] Map.empty) [0..<R])"

text \<open>
  The assignment \<^verbatim>\<open>pixel_array[row, column] = pixel\<close> into an array of shape
  (rows, columns, 3): a pixel of three channels is stored as it is, a pixel of one
  channel is broadcast to three, any other channel count raises ValueError.
\<close>

definition store_pixel :: "pixel \<Rightarrow> error + pixel" where
  "store_pixel p =
     (if length p = 3 then Inr p
      else if length p = 1 then Inr (replicate 3 (hd p))
      else Inl ValueError)"

definition pixel_at :: "engine \<Rightarrow> nat \<Rightarrow> nat \<Rightarrow> error + pixel" where
  "pixel_at st row column =
     (if row < length (replaced st) \<and> column < length (replaced st ! row) then
        (let key = replaced st ! row ! column in
         if row < length (replace_dict st) then
           (case (replace_dict st ! row) key of
              None \<Rightarrow> Inl KeyError
            | Some pixel \<Rightarrow> store_pixel pixel)
         else Inl IndexError)
      else Inl IndexError)"

text \<open>\<^verbatim>\<open>_replace_with_pixels\<close>: the rank grid decoded through the dictionaries, row by
  row and column by column; the engine is not changed.\<close>

definition replace_with_pixels :: "engine \<Rightarrow> error + image" where
  "replace_with_pixels st =
     traverse (\<lambda>row. traverse (\<lambda>column. pixel_at st row column) [0..<columns st])
       [0..<rows st]"

section \<open>The constructor\<close>

text \<open>
  \<^verbatim>\<open>__init__\<close>. The shape of the array gives \<open>rows\<close> and \<open>columns\<close>; an image with no
  row is taken to have no column. \<^verbatim>\<open>np.random.shuffle\<close> is the parameter \<open>shuffle\<close>
  (the reordering it applies to row \<open>i\<close>), and the table of sorting functions of the
  module \<^verbatim>\<open>algorithms\<close> is the parameter \<open>algos\<close>. \<^verbatim>\<open>np.flip\<close> without an axis
  reverses the rows and every row.
\<close>

definition shape_rows :: "image \<Rightarrow> nat" where
  "shape_rows img = length img"

definition shape_columns :: "image \<Rightarrow> nat" where
  "shape_columns img = (case img of [] \<Rightarrow> 0 | r # _ \<Rightarrow> length r)"

definition randomise_image :: "(nat \<Rightarrow> int list \<Rightarrow> int list) \<Rightarrow> engine \<Rightarrow> engine" where
  "randomise_image shuffle st =
     st\<lparr>replaced := map (\<lambda>i. shuffle i (replaced st ! i)) [0..<rows st]\<rparr>"

definition reverse_image :: "engine \<Rightarrow> engine" where
  "reverse_image st = st\<lparr>replaced := rev (map rev (replaced st))\<rparr>"

definition init :: "(string \<rightharpoonup> (int list \<Rightarrow> trace)) \<Rightarrow> (nat \<Rightarrow> int list \<Rightarrow> int list) \<Rightarrow>
    image \<Rightarrow> bool \<Rightarrow> bool \<Rightarrow> engine" where
  "init algos shuffle img randomise reverse =
     (let R = shape_rows img;
          C = shape_columns img;
          (g, d) = replace_with_integers R C img;
          st0 = \<lparr>original = img, rows = R, columns = C, replaced = g, replace_dict = d,
                 swaps = [], max_swaps = 0, sorting_methods = algos\<rparr>;
          st1 = (if randomise then randomise_image shuffle st0 else st0);
          st2 = (if reverse then reverse_image st1 else st1)
      in st2)"

section \<open>Capturing the traces\<close>

text \<open>A \<^verbatim>\<open>for row in range(self.rows)\<close> loop whose body may raise.\<close>

fun for_rows :: "(nat \<Rightarrow> engine \<Rightarrow> unit outcome) \<Rightarrow> nat list \<Rightarrow> engine \<Rightarrow> unit outcome" where
  "for_rows body [] st = Returned () st"
| "for_rows body (row # later) st =
     (case body row st of
        Raised e s \<Rightarrow> Raised e s
      | Returned u st' \<Rightarrow> for_rows body later st')"

text \<open>
  One round of the loop of \<^verbatim>\<open>sort\<close>: the row is copied, the sorting function is
  looked up by name (KeyError when the name is not a key of the table) and run on the
  copy, its trace is appended and the longest trace length is updated.
\<close>

definition sort_row :: "string \<Rightarrow> nat \<Rightarrow> engine \<Rightarrow> unit outcome" where
  "sort_row sorting_method row_index st =
     (if row_index < length (replaced st) then
        (let row = replaced st ! row_index in
         case sorting_methods st sorting_method of
           None \<Rightarrow> Raised KeyError st
         | Some algorithm \<Rightarrow>
             (let temp_swaps = algorithm row;
                  all_swaps = swaps st @ [temp_swaps]
              in Returned ()
                   (st\<lparr>swaps := all_swaps,
                       max_swaps := max (int (length (last all_swaps))) (max_swaps st)\<rparr>)))
      else Raised IndexError st)"

definition sort :: "string \<Rightarrow> engine \<Rightarrow> unit outcome" where
  "sort sorting_method st = for_rows (sort_row sorting_method) [0..<rows st] st"

section \<open>Replaying swaps\<close>

text \<open>
  The tuple assignment of \<^verbatim>\<open>__swap_pixels\<close>: both cells are read (index \<open>j\<close> first),
  then both are written.
\<close>

definition swap_cells :: "nat \<Rightarrow> int \<Rightarrow> int \<Rightarrow> engine \<Rightarrow> unit outcome" where
  "swap_cells row i j st =
     (if row < length (replaced st) then
        (let r = replaced st ! row in
         case np_index (length r) j of
           None \<Rightarrow> Raised IndexError st
         | Some b \<Rightarrow>
             (case np_index (length r) i of
                None \<Rightarrow> Raised IndexError st
              | Some a \<Rightarrow>
                  Returned () (st\<lparr>replaced := (replaced st)[row := r[a := r ! b, b := r ! a]]\<rparr>)))
      else Raised IndexError st)"

text \<open>\<^verbatim>\<open>for i, j in ...\<close>: an element that is not a pair cannot be unpacked.\<close>

fun swap_each :: "nat \<Rightarrow> trace \<Rightarrow> engine \<Rightarrow> unit outcome" where
  "swap_each row [] st = Returned () st"
| "swap_each row (Val v # rest) st = Raised TypeError st"
| "swap_each row (Swap i j # rest) st =
     (case swap_cells row i j st of
        Raised e s \<Rightarrow> Raised e s
      | Returned u st' \<Rightarrow> swap_each row rest st')"

definition swap_pixels :: "nat \<Rightarrow> int \<Rightarrow> int \<Rightarrow> engine \<Rightarrow> unit outcome" where
  "swap_pixels row start stop st =
     (if row < length (swaps st) then swap_each row (py_slice (swaps st ! row) start stop) st
      else Raised IndexError st)"

section \<open>Splicing values\<close>

text \<open>
  The value of a slice assignment, broadcast to \<open>k\<close> cells: a run of \<open>k\<close> values, or a
  single value repeated, or a single pair for two cells; anything else raises ValueError
  (here \<open>None\<close>).
\<close>

fun step_value :: "step \<Rightarrow> int option" where
  "step_value (Val v) = Some v"
| "step_value (Swap i j) = None"

definition broadcast :: "trace \<Rightarrow> nat \<Rightarrow> int list option" where
  "broadcast vals k =
     (if \<forall>s \<in> set vals. step_value s \<noteq> None then
        (let vs = map (\<lambda>s. the (step_value s)) vals in
         if length vs = k then Some vs
         else if length vs = 1 then Some (replicate k (hd vs))
         else None)
      else
        (case vals of
           [Swap i j] \<Rightarrow> if k = 2 then Some [i, j] else None
         | _ \<Rightarrow> None))"

text \<open>\<^verbatim>\<open>self.replaced[row, lo:hi] = vals\<close>; an absent bound is \<open>None\<close>.\<close>

definition set_slice :: "nat \<Rightarrow> int option \<Rightarrow> int option \<Rightarrow> trace \<Rightarrow> engine \<Rightarrow> unit outcome" where
  "set_slice row lo hi vals st =
     (if row < length (replaced st) then
        (let r = replaced st ! row;
             a = (case lo of None \<Rightarrow> 0 | Some i \<Rightarrow> slice_bound (length r) i);
             b = (case hi of None \<Rightarrow> length r | Some i \<Rightarrow> slice_bound (length r) i);
             k = b - a
         in case broadcast vals k of
              None \<Rightarrow> Raised ValueError st
            | Some ws \<Rightarrow>
                Returned () (st\<lparr>replaced := (replaced st)[row := take a r @ ws @ drop (a + k) r]\<rparr>))
      else Raised IndexError st)"

text \<open>The body of the row loop of the second method of \<^verbatim>\<open>visualise\<close>.\<close>

definition splice_row :: "int \<Rightarrow> int \<Rightarrow> int \<Rightarrow> int \<Rightarrow> nat \<Rightarrow> engine \<Rightarrow> unit outcome" where
  "splice_row pos pos_end swap_num swap_end row st =
     (if row < length (swaps st) then
        (let t = swaps st ! row in
         if pos_end < pos then
           (let swap_amount = int (columns st) - pos in
            case set_slice row (Some pos) None (py_slice t swap_num (swap_num + swap_amount)) st of
              Raised e s \<Rightarrow> Raised e s
            | Returned u st' \<Rightarrow>
                set_slice row None (Some pos_end) (py_slice t (swap_num + swap_amount) swap_end) st')
         else set_slice row (Some pos) (Some pos_end) (py_slice t swap_num swap_end) st)
      else Raised IndexError st)"

section \<open>Synthesising the frames\<close>

text \<open>
  The local variables of \<^verbatim>\<open>visualise\<close> (\<open>pos\<close> is a variable of the second
  method only). The last three fields are not variables of the program: they log, for
  each frame appended, the rank grid it was decoded from; for each round of a loop, the
  bounds \<open>(swap_num, swap_num + swap_step + extra)\<close> of the trace slice it replays; and
  for each round of the second loop, the write cursor \<open>pos\<close> it leaves.
\<close>

record loopvars =
  swap_num :: int
  remainder :: int
  pos :: int
  frames :: "image list"
  grids :: "grid list"
  chunks :: "(int \<times> int) list"
  cursors :: "int list"

text \<open>One round of the first loop (an in-place algorithm was used). The call of
  \<^verbatim>\<open>progress_bar\<close> divides by \<^verbatim>\<open>self.max_swaps\<close>.\<close>

definition swap_round :: "int \<Rightarrow> loopvars \<Rightarrow> engine \<Rightarrow> loopvars outcome" where
  "swap_round swap_step lv st =
     (let extra = (if remainder lv > 0 then 1 else 0);
          remainder' = (if remainder lv > 0 then remainder lv - 1 else remainder lv);
          swap_end = swap_num lv + swap_step + extra
      in case for_rows (\<lambda>row. swap_pixels row (swap_num lv) swap_end) [0..<rows st] st of
           Raised e s \<Rightarrow> Raised e s
         | Returned u st' \<Rightarrow>
             (case replace_with_pixels st' of
                Inl e \<Rightarrow> Raised e st'
              | Inr frame \<Rightarrow>
                  if max_swaps st' = 0 then Raised ZeroDivisionError st'
                  else Returned
                         (lv\<lparr>swap_num := swap_end, remainder := remainder',
                             frames := frames lv @ [frame],
                             grids := grids lv @ [replaced st'],
                             chunks := chunks lv @ [(swap_num lv, swap_end)]\<rparr>) st'))"

partial_function (option) swap_while :: "int \<Rightarrow> loopvars \<Rightarrow> engine \<Rightarrow> loopvars outcome option" where
  "swap_while swap_step lv st =
     (if swap_num lv \<le> max_swaps st then
        (case swap_round swap_step lv st of
           Raised e s \<Rightarrow> Some (Raised e s)
         | Returned lv' st' \<Rightarrow> swap_while swap_step lv' st')
      else Some (Returned lv st))"

declare swap_while.simps [code]

text \<open>One round of the second loop (an out-of-place algorithm was used).\<close>

definition splice_round :: "int \<Rightarrow> loopvars \<Rightarrow> engine \<Rightarrow> loopvars outcome" where
  "splice_round swap_step lv st =
     (let extra = (if remainder lv > 0 then 1 else 0);
          remainder' = (if remainder lv > 0 then remainder lv - 1 else remainder lv);
          swap_end = swap_num lv + swap_step + extra
      in case swaps st of
           [] \<Rightarrow> Raised IndexError st
         | t0 # _ \<Rightarrow>
             if columns st = 0 then Raised ZeroDivisionError st
             else
               (let pos_end = (pos lv + int (length (py_slice t0 (swap_num lv) swap_end)))
                                mod int (columns st)
                in case for_rows (splice_row (pos lv) pos_end (swap_num lv) swap_end)
                          [0..<rows st] st of
                     Raised e s \<Rightarrow> Raised e s
                   | Returned u st' \<Rightarrow>
                       (case replace_with_pixels st' of
                          Inl e \<Rightarrow> Raised e st'
                        | Inr frame \<Rightarrow>
                            Returned
                              (lv\<lparr>swap_num := swap_end, remainder := remainder', pos := pos_end,
                                  frames := frames lv @ [frame],
                                  grids := grids lv @ [replaced st'],
                                  chunks := chunks lv @ [(swap_num lv, swap_end)],
                                  cursors := cursors lv @ [pos_end]\<rparr>) st')))"

partial_function (option) splice_while :: "int \<Rightarrow> loopvars \<Rightarrow> engine \<Rightarrow> loopvars outcome option" where
  "splice_while swap_step lv st =
     (if swap_num lv < max_swaps st then
        (case splice_round swap_step lv st of
           Raised e s \<Rightarrow> Some (Raised e s)
         | Returned lv' st' \<Rightarrow> splice_while swap_step lv' st')
      else Some (Returned lv st))"

declare splice_while.simps [code]

text \<open>\<^verbatim>\<open>int(a / b)\<close> for \<open>b \<noteq> 0\<close>: the quotient truncated towards zero.\<close>

definition trunc_div :: "int \<Rightarrow> int \<Rightarrow> int" where
  "trunc_div a b = sgn a * sgn b * (\<bar>a\<bar> div \<bar>b\<bar>)"

text \<open>
  \<^verbatim>\<open>visualise\<close>, with the log. \<open>None\<close> is a call that does not return. The traces are
  captured first when there are none; the first frame is decoded before the loops; the
  method is chosen by the first element of the first trace.
\<close>

definition visualise_run :: "int \<Rightarrow> string \<Rightarrow> engine \<Rightarrow> loopvars outcome option" where
  "visualise_run num_frames sort_method st =
     (case (if swaps st = [] then sort sort_method st else Returned () st) of
        Raised e s \<Rightarrow> Some (Raised e s)
      | Returned u st1 \<Rightarrow>
          (let n = num_frames - 1 in
           case replace_with_pixels st1 of
             Inl e \<Rightarrow> Some (Raised e st1)
           | Inr frame \<Rightarrow>
               (let lv = \<lparr>swap_num = 0, remainder = max_swaps st1 mod n, pos = 0,
                          frames = [frame], grids = [replaced st1], chunks = [],
                          cursors = []\<rparr>
                in case swaps st1 of
                     [] \<Rightarrow> Some (Raised IndexError st1)
                   | [] # _ \<Rightarrow> Some (Raised IndexError st1)
                   | (Swap i j # _) # _ \<Rightarrow>
                       if n = 0 then Some (Raised ZeroDivisionError st1)
                       else swap_while (max_swaps st1 div n) lv st1
                   | (Val v # _) # _ \<Rightarrow>
                       if n = 0 then Some (Raised ZeroDivisionError st1)
                       else splice_while (trunc_div (max_swaps st1) n) lv st1)))"

definition visualise :: "int \<Rightarrow> string \<Rightarrow> engine \<Rightarrow> image list outcome option" where
  "visualise num_frames sort_method st =
     (case visualise_run num_frames sort_method st of
        None \<Rightarrow> None
      | Some (Raised e s) \<Rightarrow> Some (Raised e s)
      | Some (Returned lv s) \<Rightarrow> Some (Returned (frames lv) s))"

section \<open>Notions used to state the properties\<close>

text \<open>An image whose rows all have the width of the first and whose pixels all have
  \<open>ch\<close> channels.\<close>

definition rect_image :: "nat \<Rightarrow> image \<Rightarrow> bool" where
  "rect_image ch img \<longleftrightarrow>
     (\<forall>r \<in> set img. length r = shape_columns img \<and> (\<forall>p \<in> set r. length p = ch))"

text \<open>The effect of one recorded swap on a row, and of a trace of swaps applied in order.\<close>

fun swap_positions :: "step \<Rightarrow> int list \<Rightarrow> int list" where
  "swap_positions (Swap i j) r =
     (case (np_index (length r) i, np_index (length r) j) of
        (Some a, Some b) \<Rightarrow> r[a := r ! b, b := r ! a]
      | _ \<Rightarrow> r)"
| "swap_positions (Val v) r = r"

definition replay :: "trace \<Rightarrow> int list \<Rightarrow> int list" where
  "replay t r = fold swap_positions t r"

text \<open>The rank grid of an engine after the first \<open>s\<close> steps of every row's trace.\<close>

definition replayed :: "engine \<Rightarrow> int \<Rightarrow> grid" where
  "replayed st s =
     map (\<lambda>row. replay (py_slice (swaps st ! row) 0 s) (replaced st ! row)) [0..<rows st]"

text \<open>A swap whose two positions are indices of a row of \<open>C\<close> cells.\<close>

fun valid_swap :: "nat \<Rightarrow> step \<Rightarrow> bool" where
  "valid_swap C (Swap i j) = (np_index C i \<noteq> None \<and> np_index C j \<noteq> None)"
| "valid_swap C (Val v) = False"

text \<open>Every rank of the grid is a key of its row's dictionary, for a pixel that the frame
  array can store.\<close>

definition decodable :: "engine \<Rightarrow> bool" where
  "decodable st \<longleftrightarrow>
     rows st \<le> length (replace_dict st) \<and>
     (\<forall>row \<in> set [0..<rows st]. \<forall>v \<in> set (replaced st ! row).
        case (replace_dict st ! row) v of
          None \<Rightarrow> False
        | Some p \<Rightarrow> length p = 3 \<or> length p = 1)"

text \<open>
  An engine ready for the first method: the grid has the shape (rows, columns), there is
  a trace for every row, the traces of the rows hold swaps of positions of a row, the
  first trace is not empty, and the grid can be decoded.
\<close>

definition swap_ready :: "engine \<Rightarrow> bool" where
  "swap_ready st \<longleftrightarrow>
     length (replaced st) = rows st \<and>
     (\<forall>r \<in> set (replaced st). length r = columns st) \<and>
     rows st \<le> length (swaps st) \<and>
     (\<forall>t \<in> set (take (rows st) (swaps st)). \<forall>s \<in> set t. valid_swap (columns st) s) \<and>
     (case swaps st of (Swap i j # _) # _ \<Rightarrow> True | _ \<Rightarrow> False) \<and>
     decodable st"

text \<open>The \<open>k\<close>-th boundary of the partition of the trace into chunks of \<open>q\<close> steps, the
  first \<open>r\<close> of them one step longer.\<close>

definition chunk_bound :: "int \<Rightarrow> int \<Rightarrow> nat \<Rightarrow> int" where
  "chunk_bound q r k = int k * q + min (int k) r"

text \<open>The state of the first loop after \<open>k\<close> rounds, from the engine \<open>st0\<close>.\<close>

definition swap_inv :: "engine \<Rightarrow> int \<Rightarrow> int \<Rightarrow> nat \<Rightarrow> loopvars \<Rightarrow> engine \<Rightarrow> bool" where
  "swap_inv st0 q r k lv st \<longleftrightarrow>
     st = st0\<lparr>replaced := replayed st0 (chunk_bound q r k)\<rparr> \<and>
     swap_num lv = chunk_bound q r k \<and>
     remainder lv = max (r - int k) 0 \<and>
     chunks lv = map (\<lambda>i. (chunk_bound q r i, chunk_bound q r (Suc i))) [0..<k] \<and>
     grids lv = map (\<lambda>i. replayed st0 (chunk_bound q r i)) [0..<Suc k] \<and>
     length (frames lv) = Suc k \<and>
     (\<forall>i \<in> set [0..<Suc k].
        replace_with_pixels (st0\<lparr>replaced := grids lv ! i\<rparr>) = Inr (frames lv ! i))"

text \<open>Column \<open>c\<close> lies outside the circular window that starts at the cursor \<open>p\<close>
  and ends before the cursor \<open>pe\<close>; when \<open>pe < p\<close> the window runs to the end of the row
  and goes on from its start.\<close>

definition outside_window :: "int \<Rightarrow> int \<Rightarrow> nat \<Rightarrow> bool" where
  "outside_window p pe c \<longleftrightarrow>
     (if pe < p then pe \<le> int c \<and> int c < p else int c < p \<or> pe \<le> int c)"

text \<open>The grid \<open>g'\<close> has the shape of \<open>g\<close> and differs from it inside the window
  only.\<close>

definition window_only :: "int \<Rightarrow> int \<Rightarrow> grid \<Rightarrow> grid \<Rightarrow> bool" where
  "window_only p pe g g' \<longleftrightarrow>
     length g' = length g \<and>
     (\<forall>row < length g. length (g' ! row) = length (g ! row) \<and>
        (\<forall>c < length (g ! row). outside_window p pe c \<longrightarrow> g' ! row ! c = g ! row ! c))"

text \<open>An engine of two rows after the capture of the swaps of a bubble sort: the first
  row takes two swaps, the second is sorted already.\<close>

definition demo_engine :: engine where
  "demo_engine =
     \<lparr>original = [[[10, 20, 30], [40, 50, 60], [70, 80, 90]], [[1, 2, 3], [4, 5, 6], [7, 8, 9]]],
      rows = 2, columns = 3, replaced = [[2, 0, 1], [0, 1, 2]],
      replace_dict = [[0 \<mapsto> [10, 20, 30], 1 \<mapsto> [40, 50, 60], 2 \<mapsto> [70, 80, 90]],
                      [0 \<mapsto> [1, 2, 3], 1 \<mapsto> [4, 5, 6], 2 \<mapsto> [7, 8, 9]]],
      swaps = [[Swap 0 1, Swap 1 2], []], max_swaps = 2, sorting_methods = Map.empty\<rparr>"

text \<open>An engine of one row of two cells after the capture of an out-of-place sort: the
  trace is the sorted row, value by value.\<close>

definition demo_splice :: engine where
  "demo_splice =
     \<lparr>original = [[[10, 20, 30], [40, 50, 60]]],
      rows = 1, columns = 2, replaced = [[1, 0]],
      replace_dict = [[0 \<mapsto> [10, 20, 30], 1 \<mapsto> [40, 50, 60]]],
      swaps = [[Val 0, Val 1]], max_swaps = 2, sorting_methods = Map.empty\<rparr>"

text \<open>An engine of two rows after the capture of an out-of-place sort, where the second
  row has an empty trace.\<close>

definition demo_uneven :: engine where
  "demo_uneven =
     \<lparr>original = [[[10, 20, 30], [40, 50, 60], [70, 80, 90], [100, 110, 120]],
                  [[1, 2, 3], [4, 5, 6], [7, 8, 9], [10, 11, 12]]],
      rows = 2, columns = 4, replaced = [[3, 2, 1, 0], [0, 1, 2, 3]],
      replace_dict = [[0 \<mapsto> [10, 20, 30], 1 \<mapsto> [40, 50, 60], 2 \<mapsto> [70, 80, 90],
                       3 \<mapsto> [100, 110, 120]],
                      [0 \<mapsto> [1, 2, 3], 1 \<mapsto> [4, 5, 6], 2 \<mapsto> [7, 8, 9], 3 \<mapsto> [10, 11, 12]]],
      swaps = [[Val 0, Val 1, Val 2, Val 3], []], max_swaps = 4, sorting_methods = Map.empty\<rparr>"

text \<open>Two engines that differ in the rank grid at most.\<close>

definition grid_only :: "engine \<Rightarrow> engine \<Rightarrow> bool" where
  "grid_only st st' \<longleftrightarrow> st' = st\<lparr>replaced := replaced st'\<rparr>"

text \<open>The loop counters and the log of chunks after \<open>k\<close> rounds of either loop.\<close>

definition ctrl_inv :: "int \<Rightarrow> int \<Rightarrow> nat \<Rightarrow> loopvars \<Rightarrow> bool" where
  "ctrl_inv q r k lv \<longleftrightarrow>
     swap_num lv = chunk_bound q r k \<and>
     remainder lv = max (r - int k) 0 \<and>
     chunks lv = map (\<lambda>i. (chunk_bound q r i, chunk_bound q r (Suc i))) [0..<k]"

text \<open>An engine of one row after the capture of an out-of-place sort whose trace holds
  a single value.\<close>

definition demo_short :: engine where
  "demo_short =
     \<lparr>original = [[[10, 20, 30], [40, 50, 60]]],
      rows = 1, columns = 2, replaced = [[1, 0]],
      replace_dict = [[0 \<mapsto> [10, 20, 30], 1 \<mapsto> [40, 50, 60]]],
      swaps = [[Val 0]], max_swaps = 1, sorting_methods = Map.empty\<rparr>"

text \<open>The scenario of a row \<open>3, 1, 2, 0\<close> with the five swaps of a bubble sort.\<close>

definition demo_scenario :: engine where
  "demo_scenario =
     \<lparr>original = [[[10, 20, 30], [40, 50, 60], [70, 80, 90], [100, 110, 120]]],
      rows = 1, columns = 4, replaced = [[3, 1, 2, 0]],
      replace_dict = [[0 \<mapsto> [10, 20, 30], 1 \<mapsto> [40, 50, 60], 2 \<mapsto> [70, 80, 90],
                       3 \<mapsto> [100, 110, 120]]],
      swaps = [[Swap 0 1, Swap 1 2, Swap 2 3, Swap 1 2, Swap 0 1]], max_swaps = 5,
      sorting_methods = Map.empty\<rparr>"

text \<open>An engine whose only row is sorted already: the trace captured for it is empty.\<close>

definition demo_sorted :: engine where
  "demo_sorted =
     \<lparr>original = [[[10, 20, 30], [40, 50, 60], [70, 80, 90]]],
      rows = 1, columns = 3, replaced = [[0, 1, 2]],
      replace_dict = [[0 \<mapsto> [10, 20, 30], 1 \<mapsto> [40, 50, 60], 2 \<mapsto> [70, 80, 90]]],
      swaps = [[]], max_swaps = 0, sorting_methods = Map.empty\<rparr>"

text \<open>A new engine, no trace captured yet, whose table of sorting functions has one entry
  (a function that records one swap).\<close>

definition demo_fresh :: engine where
  "demo_fresh =
     init [''bubble_sort'' \<mapsto> (\<lambda>row. [Swap 0 1])] (\<lambda>i row. [1, 0])
       [[[10, 20, 30], [40, 50, 60]]] True False"

section \<open>The rank codec: decoding what was encoded\<close>

lemma traverse_all_Inr:
  "(\<And>x. x \<in> set xs \<Longrightarrow> f x = Inr (g x)) \<Longrightarrow> traverse f xs = Inr (map g xs)"
  by (induction xs) auto

lemma temp_dict_lookup:
  "fold (\<lambda>j temp_dict. temp_dict(int j \<mapsto> f j)) [0..<C] m (int k) =
     (if k < C then Some (f k) else m (int k))"
  by (induction C) auto

lemma init_plain:
  "init algos shuffle img False False =
     \<lparr>original = img, rows = length img, columns = shape_columns img,
      replaced = map (\<lambda>i. map int [0..<shape_columns img]) [0..<length img],
      replace_dict = map (\<lambda>i. fold (\<lambda>j temp_dict. temp_dict(int j \<mapsto> img ! i ! j))
          [0..<shape_columns img] Map.empty) [0..<length img],
      swaps = [], max_swaps = 0, sorting_methods = algos\<rparr>"
  by (simp add: init_def Let_def shape_rows_def replace_with_integers_def)

lemma pixel_at_init:
  assumes "rect_image 3 img" "i < length img" "j < shape_columns img"
  shows "pixel_at (init algos shuffle img False False) i j = Inr (img ! i ! j)"
proof -
  have row: "img ! i \<in> set img" using assms(2) by simp
  then have len: "length (img ! i) = shape_columns img"
    using assms(1) unfolding rect_image_def by blast
  then have "img ! i ! j \<in> set (img ! i)" using assms(3) by simp
  with row have px: "length (img ! i ! j) = 3"
    using assms(1) unfolding rect_image_def by blast
  show ?thesis
    unfolding pixel_at_def init_plain using assms(2,3) px
    by (simp add: temp_dict_lookup store_pixel_def)
qed

lemma decode_row_init:
  assumes "rect_image 3 img" "i < length img"
  shows "traverse (\<lambda>column. pixel_at (init algos shuffle img False False) i column)
           [0..<shape_columns img] = Inr (img ! i)"
proof -
  have "traverse (\<lambda>column. pixel_at (init algos shuffle img False False) i column)
          [0..<shape_columns img] = Inr (map (\<lambda>j. img ! i ! j) [0..<shape_columns img])"
  proof (rule traverse_all_Inr)
    fix x assume "x \<in> set [0..<shape_columns img]"
    then have "x < shape_columns img" by simp
    with assms show "pixel_at (init algos shuffle img False False) i x = Inr (img ! i ! x)"
      by (rule pixel_at_init)
  qed
  moreover have "img ! i \<in> set img" using assms(2) by simp
  then have "shape_columns img = length (img ! i)"
    using assms(1) unfolding rect_image_def by simp
  ultimately show ?thesis by (simp add: map_nth)
qed

text \<open>
  Claim C4, as amended. For every rectangular image of three-channel colour values,
  decoding the rank grid that the constructor builds (no shuffle and no reversal applied)
  through the dictionaries it builds gives back the image, cell for cell.
\<close>

theorem decode_encode_roundtrip:
  assumes "rect_image 3 img"
  shows "replace_with_pixels (init algos shuffle img False False) = Inr img"
proof -
  have "traverse (\<lambda>row. traverse (\<lambda>column. pixel_at (init algos shuffle img False False) row column)
           [0..<shape_columns img]) [0..<length img] = Inr (map (\<lambda>i. img ! i) [0..<length img])"
  proof (rule traverse_all_Inr)
    fix x assume "x \<in> set [0..<length img]"
    then have "x < length img" by simp
    with assms show "traverse (\<lambda>column. pixel_at (init algos shuffle img False False) x column)
           [0..<shape_columns img] = Inr (img ! x)"
      by (rule decode_row_init)
  qed
  moreover have "rows (init algos shuffle img False False) = length img"
    "columns (init algos shuffle img False False) = shape_columns img"
    by (simp_all add: init_plain)
  ultimately show ?thesis
    unfolding replace_with_pixels_def by (simp add: map_nth)
qed

theorem decode_encode_roundtrip_witness:
  "rect_image 3 [[[1, 2, 3], [4, 5, 6]], [[7, 8, 9], [10, 11, 12]]] \<and>
   replace_with_pixels
     (init Map.empty (\<lambda>i r. r) [[[1, 2, 3], [4, 5, 6]], [[7, 8, 9], [10, 11, 12]]] False False)
     = Inr [[[1, 2, 3], [4, 5, 6]], [[7, 8, 9], [10, 11, 12]]]"
proof -
  have h: "rect_image 3 [[[1, 2, 3], [4, 5, 6]], [[7, 8, 9], [10, 11, 12]]]"
    by (simp add: rect_image_def shape_columns_def)
  show ?thesis using h decode_encode_roundtrip [OF h] by simp
qed

text \<open>
  Claim C4, as stated, fails: a rectangular image of one pixel with four channels is
  encoded, and decoding it raises ValueError, since the frame array has three channels.
\<close>

theorem decode_four_channels_counterexample:
  "rect_image 4 [[[1, 2, 3, 255]]] \<and>
   replace_with_pixels (init Map.empty (\<lambda>i r. r) [[[1, 2, 3, 255]]] False False)
     = Inl ValueError"
  by code_simp

section \<open>Replaying swaps: the first loop\<close>

lemma np_index_less: "np_index n i = Some a \<Longrightarrow> a < n"
  by (auto simp: np_index_def split: if_splits)

lemma length_swap_positions [simp]: "length (swap_positions s r) = length r"
  by (cases s) (auto split: option.splits)

lemma length_replay [simp]: "length (replay t r) = length r"
  unfolding replay_def by (induction t arbitrary: r) auto

lemma mset_swap_positions [simp]: "mset (swap_positions s r) = mset r"
proof (cases s)
  case (Swap i j)
  show ?thesis
  proof (cases "np_index (length r) i")
    case None
    then show ?thesis using Swap by simp
  next
    case (Some a)
    note A = this
    show ?thesis
    proof (cases "np_index (length r) j")
      case None
      then show ?thesis using Swap A by simp
    next
      case (Some b)
      have "a < length r" "b < length r"
        using A Some by (auto dest: np_index_less)
      then have "mset (r[a := r ! b, b := r ! a]) = mset r"
        by (simp add: mset_swap)
      then show ?thesis using Swap A Some by simp
    qed
  qed
next
  case (Val v)
  then show ?thesis by simp
qed

lemma mset_replay [simp]: "mset (replay t r) = mset r"
  unfolding replay_def by (induction t arbitrary: r) auto

lemma replay_append: "replay (t @ u) r = replay u (replay t r)"
  by (simp add: replay_def)

lemma replay_Nil [simp]: "replay [] r = r"
  by (simp add: replay_def)

lemma replay_Cons: "replay (s # t) r = replay t (swap_positions s r)"
  by (simp add: replay_def)


lemma py_slice_split:
  assumes "0 \<le> a" "a \<le> b"
  shows "py_slice t 0 a @ py_slice t a b = py_slice t 0 b"
proof -
  define a' where "a' = nat (min a (int (length t)))"
  define b' where "b' = nat (min b (int (length t)))"
  have le: "a' \<le> b'" using assms by (simp add: a'_def b'_def)
  have "take a' t @ take (b' - a') (drop a' t) = take (a' + (b' - a')) t"
    by (simp only: take_add)
  also have "\<dots> = take b' t" using le by simp
  finally have "take a' t @ take (b' - a') (drop a' t) = take b' t" .
  moreover have "py_slice t 0 a = take a' t" "py_slice t 0 b = take b' t"
    "py_slice t a b = take (b' - a') (drop a' t)"
    using assms by (simp_all add: py_slice_def slice_bound_def a'_def b'_def Let_def)
  ultimately show ?thesis by simp
qed

lemma set_py_slice: "set (py_slice t a b) \<subseteq> set t"
  unfolding py_slice_def Let_def
  by (meson set_drop_subset set_take_subset subset_trans)

lemma py_slice_zero [simp]: "py_slice t 0 0 = []"
  by (simp add: py_slice_def slice_bound_def)


lemma py_slice_past: "0 \<le> a \<Longrightarrow> int (length t) \<le> a \<Longrightarrow> py_slice t a b = []"
  by (simp add: py_slice_def slice_bound_def)

lemma swap_cells_valid:
  assumes "row < length (replaced st)" "valid_swap (length (replaced st ! row)) (Swap i j)"
  shows "swap_cells row i j st =
    Returned () (st\<lparr>replaced := (replaced st)[row := swap_positions (Swap i j) (replaced st ! row)]\<rparr>)"
  using assms by (auto simp: swap_cells_def Let_def split: option.splits)

declare swap_positions.simps [simp del]

lemma swap_each_valid:
  assumes "row < length (replaced st)" "\<forall>s \<in> set t. valid_swap (length (replaced st ! row)) s"
  shows "swap_each row t st =
    Returned () (st\<lparr>replaced := (replaced st)[row := replay t (replaced st ! row)]\<rparr>)"
  using assms
proof (induction t arbitrary: st)
  case Nil
  then show ?case by simp
next
  case (Cons s t)
  from Cons.prems(2) obtain i j where s: "s = Swap i j"
    by (cases s) auto
  let ?st1 = "st\<lparr>replaced := (replaced st)[row := swap_positions (Swap i j) (replaced st ! row)]\<rparr>"
  have step: "swap_cells row i j st = Returned () ?st1"
    using Cons.prems s by (intro swap_cells_valid) auto
  have "swap_each row t ?st1 =
    Returned () (?st1\<lparr>replaced := (replaced ?st1)[row := replay t (replaced ?st1 ! row)]\<rparr>)"
    using Cons.prems by (intro Cons.IH) auto
  then show ?case
    using step s Cons.prems(1) by (simp add: replay_Cons)
qed

lemma for_rows_swap_pixels:
  assumes "length (replaced st) = R" "\<forall>r \<in> set (replaced st). length r = C"
    "R \<le> length (swaps st)"
    "\<forall>row < R. \<forall>s \<in> set (swaps st ! row). valid_swap C s"
    "set rs \<subseteq> {..<R}"
  shows "for_rows (\<lambda>row. swap_pixels row a b) rs st =
    Returned () (st\<lparr>replaced :=
      fold (\<lambda>row g. g[row := replay (py_slice (swaps st ! row) a b) (g ! row)]) rs (replaced st)\<rparr>)"
  using assms
proof (induction rs arbitrary: st)
  case Nil
  then show ?case by simp
next
  case (Cons row rs)
  let ?t = "py_slice (swaps st ! row) a b"
  let ?st1 = "st\<lparr>replaced := (replaced st)[row := replay ?t (replaced st ! row)]\<rparr>"
  have row: "row < R" using Cons.prems(5) by simp
  have len: "length (replaced st ! row) = C"
    using Cons.prems(1,2) row by simp
  have "\<forall>s \<in> set (swaps st ! row). valid_swap C s"
    using Cons.prems(4) row by blast
  then have valid: "\<forall>s \<in> set ?t. valid_swap (length (replaced st ! row)) s"
    using len set_py_slice[of "swaps st ! row" a b] by blast
  have "row < length (replaced st)" using row Cons.prems(1) by simp
  then have "swap_each row ?t st = Returned () ?st1"
    using valid by (rule swap_each_valid)
  moreover have "row < length (swaps st)" using row Cons.prems(3) by simp
  ultimately have one: "swap_pixels row a b st = Returned () ?st1"
    by (simp add: swap_pixels_def)
  have shape1: "\<forall>r \<in> set (replaced ?st1). length r = C"
  proof
    fix r assume "r \<in> set (replaced ?st1)"
    then have "r \<in> insert (replay ?t (replaced st ! row)) (set (replaced st))"
      using set_update_subset_insert[of "replaced st" row] by auto
    then show "length r = C" using Cons.prems(2) len by auto
  qed
  have p1: "length (replaced ?st1) = R" using Cons.prems(1) by simp
  have p3: "R \<le> length (swaps ?st1)" using Cons.prems(3) by simp
  have p4: "\<forall>row < R. \<forall>s \<in> set (swaps ?st1 ! row). valid_swap C s"
    using Cons.prems(4) by simp
  have p5: "set rs \<subseteq> {..<R}" using Cons.prems(5) by simp
  have "for_rows (\<lambda>row. swap_pixels row a b) rs ?st1 =
    Returned () (?st1\<lparr>replaced :=
      fold (\<lambda>row g. g[row := replay (py_slice (swaps ?st1 ! row) a b) (g ! row)]) rs (replaced ?st1)\<rparr>)"
    using p1 shape1 p3 p4 p5 by (rule Cons.IH)
  then show ?case using one by simp
qed

lemma length_fold_update_rows [simp]:
  "length (fold (\<lambda>row g. g[row := f row (g ! row)]) rs g) = length g"
  by (induction rs arbitrary: g) auto

lemma fold_update_rows_nth:
  assumes "distinct rs" "i < length g"
  shows "fold (\<lambda>row g. g[row := f row (g ! row)]) rs g ! i =
           (if i \<in> set rs then f i (g ! i) else g ! i)"
  using assms
proof (induction rs arbitrary: g)
  case Nil
  then show ?case by simp
next
  case (Cons a rs)
  let ?F = "\<lambda>row g. g[row := f row (g ! row)]"
  have IH: "fold ?F rs (g[a := f a (g ! a)]) ! i =
      (if i \<in> set rs then f i (g[a := f a (g ! a)] ! i) else g[a := f a (g ! a)] ! i)"
    using Cons.prems by (intro Cons.IH) auto
  show ?case
  proof (cases "a = i")
    case True
    then have "i \<notin> set rs" using Cons.prems(1) by simp
    then show ?thesis using IH True Cons.prems(2) by simp
  next
    case False
    then show ?thesis using IH by simp
  qed
qed

lemma fold_update_all_rows:
  "fold (\<lambda>row g. g[row := f row (g ! row)]) [0..<length g] g =
     map (\<lambda>row. f row (g ! row)) [0..<length g]"
  by (rule nth_equalityI) (simp_all add: fold_update_rows_nth)

lemma traverse_some_Inr:
  "(\<And>x. x \<in> set xs \<Longrightarrow> \<exists>y. f x = Inr y) \<Longrightarrow> \<exists>ys. traverse f xs = Inr ys"
proof (induction xs)
  case Nil
  then show ?case by simp
next
  case (Cons x xs)
  obtain y where y: "f x = Inr y" using Cons.prems by auto
  obtain ys where ys: "traverse f xs = Inr ys" using Cons by auto
  show ?case using y ys by simp
qed

lemma store_pixel_ok: "length p = 3 \<or> length p = 1 \<Longrightarrow> \<exists>y. store_pixel p = Inr y"
  by (auto simp: store_pixel_def)

lemma decode_ok:
  assumes shape: "length g = rows st" "\<forall>r \<in> set g. length r = columns st"
    and dict: "rows st \<le> length (replace_dict st)"
    and keys: "\<And>row v. row < rows st \<Longrightarrow> v \<in> set (g ! row) \<Longrightarrow>
       \<exists>p. (replace_dict st ! row) v = Some p \<and> (length p = 3 \<or> length p = 1)"
  shows "\<exists>frame. replace_with_pixels (st\<lparr>replaced := g\<rparr>) = Inr frame"
  unfolding replace_with_pixels_def
proof (rule traverse_some_Inr)
  fix row assume "row \<in> set [0..<rows (st\<lparr>replaced := g\<rparr>)]"
  then have row: "row < rows st" by simp
  then have len: "length (g ! row) = columns st" using shape by simp
  show "\<exists>y. traverse (pixel_at (st\<lparr>replaced := g\<rparr>) row) [0..<columns (st\<lparr>replaced := g\<rparr>)] = Inr y"
  proof (rule traverse_some_Inr)
    fix column assume "column \<in> set [0..<columns (st\<lparr>replaced := g\<rparr>)]"
    then have col: "column < columns st" by simp
    then have "g ! row ! column \<in> set (g ! row)" using len by simp
    then obtain p where p: "(replace_dict st ! row) (g ! row ! column) = Some p"
       "length p = 3 \<or> length p = 1"
      using keys[OF row] by blast
    obtain y where "store_pixel p = Inr y" using store_pixel_ok[OF p(2)] by blast
    then have "pixel_at (st\<lparr>replaced := g\<rparr>) row column = Inr y"
      using row col len shape(1) dict p(1) by (simp add: pixel_at_def)
    then show "\<exists>y. pixel_at (st\<lparr>replaced := g\<rparr>) row column = Inr y" by blast
  qed
qed

lemma replayed_shape:
  "length (replayed st s) = rows st"
  "row < rows st \<Longrightarrow> replayed st s ! row = replay (py_slice (swaps st ! row) 0 s) (replaced st ! row)"
  by (simp_all add: replayed_def)

lemma replayed_zero: "length (replaced st) = rows st \<Longrightarrow> replayed st 0 = replaced st"
  by (rule nth_equalityI) (simp_all add: replayed_def)

lemma swap_ready_valid:
  assumes "swap_ready st" "row < rows st"
  shows "\<forall>s \<in> set (swaps st ! row). valid_swap (columns st) s"
proof -
  have "row < length (take (rows st) (swaps st))" using assms by (simp add: swap_ready_def)
  then have "take (rows st) (swaps st) ! row \<in> set (take (rows st) (swaps st))"
    by (rule nth_mem)
  then have "swaps st ! row \<in> set (take (rows st) (swaps st))"
    using assms(2) by simp
  then show ?thesis using assms(1) unfolding swap_ready_def by blast
qed

lemma swap_ready_row_length:
  assumes "swap_ready st" "row < rows st"
  shows "length (replaced st ! row) = columns st"
  using assms unfolding swap_ready_def by simp

lemma decode_replayed:
  assumes "swap_ready st"
  shows "\<exists>frame. replace_with_pixels (st\<lparr>replaced := replayed st s\<rparr>) = Inr frame"
proof (rule decode_ok)
  show "length (replayed st s) = rows st" by (simp add: replayed_shape)
  show "\<forall>r \<in> set (replayed st s). length r = columns st"
  proof
    fix r assume "r \<in> set (replayed st s)"
    then obtain row where "row < rows st" "r = replayed st s ! row"
      by (auto simp: in_set_conv_nth replayed_shape)
    then show "length r = columns st"
      using assms by (simp add: replayed_shape swap_ready_row_length)
  qed
  show "rows st \<le> length (replace_dict st)"
    using assms by (simp add: swap_ready_def decodable_def)
  fix row v assume row: "row < rows st" and v: "v \<in> set (replayed st s ! row)"
  have "mset (replayed st s ! row) = mset (replaced st ! row)"
    using row by (simp add: replayed_shape)
  then have "set (replayed st s ! row) = set (replaced st ! row)"
    by (rule mset_eq_setD)
  then have "v \<in> set (replaced st ! row)" using v by simp
  moreover have "\<forall>row \<in> set [0..<rows st]. \<forall>v \<in> set (replaced st ! row).
        case (replace_dict st ! row) v of None \<Rightarrow> False | Some p \<Rightarrow> length p = 3 \<or> length p = 1"
    using assms by (simp add: swap_ready_def decodable_def)
  ultimately have "case (replace_dict st ! row) v of None \<Rightarrow> False
      | Some p \<Rightarrow> length p = 3 \<or> length p = 1"
    using row by simp
  then show "\<exists>p. (replace_dict st ! row) v = Some p \<and> (length p = 3 \<or> length p = 1)"
    by (cases "(replace_dict st ! row) v") auto
qed

lemma replay_chunk:
  assumes "swap_ready st" "0 \<le> a" "a \<le> b"
  shows "for_rows (\<lambda>row. swap_pixels row a b) [0..<rows st] (st\<lparr>replaced := replayed st a\<rparr>) =
     Returned () (st\<lparr>replaced := replayed st b\<rparr>)"
proof -
  let ?st = "st\<lparr>replaced := replayed st a\<rparr>"
  have p1: "length (replaced ?st) = rows st" by (simp add: replayed_shape)
  have p2: "\<forall>r \<in> set (replaced ?st). length r = columns st"
  proof
    fix r assume "r \<in> set (replaced ?st)"
    then obtain row where "row < rows st" "r = replayed st a ! row"
      by (auto simp: in_set_conv_nth replayed_shape)
    then show "length r = columns st"
      using assms(1) by (simp add: replayed_shape swap_ready_row_length)
  qed
  have p3: "rows st \<le> length (swaps ?st)" using assms(1) by (simp add: swap_ready_def)
  have p4: "\<forall>row < rows st. \<forall>s \<in> set (swaps ?st ! row). valid_swap (columns st) s"
    using swap_ready_valid[OF assms(1)] by simp
  have p5: "set [0..<rows st] \<subseteq> {..<rows st}" by auto
  have "for_rows (\<lambda>row. swap_pixels row a b) [0..<rows st] ?st =
    Returned () (?st\<lparr>replaced :=
      fold (\<lambda>row g. g[row := replay (py_slice (swaps ?st ! row) a b) (g ! row)]) [0..<rows st]
        (replaced ?st)\<rparr>)"
    using p1 p2 p3 p4 p5 by (rule for_rows_swap_pixels)
  moreover have "fold (\<lambda>row g. g[row := replay (py_slice (swaps st ! row) a b) (g ! row)])
       [0..<rows st] (replayed st a) = replayed st b"
  proof -
    have "fold (\<lambda>row g. g[row := replay (py_slice (swaps st ! row) a b) (g ! row)])
       [0..<length (replayed st a)] (replayed st a) =
       map (\<lambda>row. replay (py_slice (swaps st ! row) a b) (replayed st a ! row))
         [0..<length (replayed st a)]"
      by (rule fold_update_all_rows)
    also have "\<dots> = replayed st b"
    proof (rule nth_equalityI)
      show "length (map (\<lambda>row. replay (py_slice (swaps st ! row) a b) (replayed st a ! row))
         [0..<length (replayed st a)]) = length (replayed st b)"
        by (simp add: replayed_shape)
    next
      fix i assume "i < length (map (\<lambda>row. replay (py_slice (swaps st ! row) a b) (replayed st a ! row))
         [0..<length (replayed st a)])"
      then have i: "i < rows st" by (simp add: replayed_shape)
      have "replay (py_slice (swaps st ! i) a b) (replay (py_slice (swaps st ! i) 0 a) (replaced st ! i))
         = replay (py_slice (swaps st ! i) 0 b) (replaced st ! i)"
        using py_slice_split[OF assms(2,3), of "swaps st ! i"]
        by (simp add: replay_append[symmetric])
      then show "map (\<lambda>row. replay (py_slice (swaps st ! row) a b) (replayed st a ! row))
         [0..<length (replayed st a)] ! i = replayed st b ! i"
        using i by (simp add: replayed_shape)
    qed
    finally show ?thesis by (simp add: replayed_shape)
  qed
  ultimately show ?thesis by simp
qed

lemma chunk_bound_0: "0 \<le> r \<Longrightarrow> chunk_bound q r 0 = 0"
  by (simp add: chunk_bound_def)

lemma chunk_bound_Suc:
  "chunk_bound q r (Suc k) = chunk_bound q r k + q + (if 0 < max (r - int k) 0 then 1 else 0)"
  by (simp add: chunk_bound_def algebra_simps min_def max_def)

lemma chunk_bound_nonneg: "0 \<le> q \<Longrightarrow> 0 \<le> r \<Longrightarrow> 0 \<le> chunk_bound q r k"
  by (simp add: chunk_bound_def)

lemma chunk_bound_mono: "0 \<le> q \<Longrightarrow> chunk_bound q r k \<le> chunk_bound q r (Suc k)"
  by (simp add: chunk_bound_Suc)

lemma swap_round_inv:
  assumes ready: "swap_ready st0" and M: "max_swaps st0 \<noteq> 0"
    and q: "0 \<le> q" and r: "0 \<le> r"
    and inv: "swap_inv st0 q r k lv st"
  shows "\<exists>lv'. swap_round q lv st =
            Returned lv' (st0\<lparr>replaced := replayed st0 (chunk_bound q r (Suc k))\<rparr>) \<and>
          swap_inv st0 q r (Suc k) lv' (st0\<lparr>replaced := replayed st0 (chunk_bound q r (Suc k))\<rparr>)"
proof -
  let ?a = "chunk_bound q r k" and ?b = "chunk_bound q r (Suc k)"
  let ?st' = "st0\<lparr>replaced := replayed st0 ?b\<rparr>"
  have st: "st = st0\<lparr>replaced := replayed st0 ?a\<rparr>"
    and num: "swap_num lv = ?a" and rem: "remainder lv = max (r - int k) 0"
    and ch: "chunks lv = map (\<lambda>i. (chunk_bound q r i, chunk_bound q r (Suc i))) [0..<k]"
    and gr: "grids lv = map (\<lambda>i. replayed st0 (chunk_bound q r i)) [0..<Suc k]"
    and fr: "length (frames lv) = Suc k"
    and dec: "\<forall>i \<in> set [0..<Suc k].
        replace_with_pixels (st0\<lparr>replaced := grids lv ! i\<rparr>) = Inr (frames lv ! i)"
    using inv unfolding swap_inv_def by blast+
  have stop: "swap_num lv + q + (if remainder lv > 0 then 1 else 0) = ?b"
    using num rem by (simp add: chunk_bound_Suc)
  have rows: "for_rows (\<lambda>row. swap_pixels row ?a ?b) [0..<rows st] st = Returned () ?st'"
    using replay_chunk[OF ready chunk_bound_nonneg[OF q r, of k] chunk_bound_mono[OF q, of r k]] st
    by simp
  obtain frame where frame: "replace_with_pixels ?st' = Inr frame"
    using decode_replayed[OF ready] by blast
  define lv' where "lv' = lv\<lparr>swap_num := ?b,
       remainder := (if remainder lv > 0 then remainder lv - 1 else remainder lv),
       frames := frames lv @ [frame], grids := grids lv @ [replayed st0 ?b],
       chunks := chunks lv @ [(?a, ?b)]\<rparr>"
  have round: "swap_round q lv st = Returned lv' ?st'"
    unfolding swap_round_def Let_def stop using rows frame M num
    by (simp add: lv'_def)
  have "swap_inv st0 q r (Suc k) lv' ?st'"
    unfolding swap_inv_def
  proof (intro conjI)
    show "?st' = st0\<lparr>replaced := replayed st0 ?b\<rparr>" by simp
    show "swap_num lv' = ?b" by (simp add: lv'_def)
    show "remainder lv' = max (r - int (Suc k)) 0"
      using rem by (simp add: lv'_def max_def)
    show "chunks lv' = map (\<lambda>i. (chunk_bound q r i, chunk_bound q r (Suc i))) [0..<Suc k]"
      using ch by (simp add: lv'_def)
    show "grids lv' = map (\<lambda>i. replayed st0 (chunk_bound q r i)) [0..<Suc (Suc k)]"
      using gr by (simp add: lv'_def)
    show "length (frames lv') = Suc (Suc k)" using fr by (simp add: lv'_def)
    show "\<forall>i \<in> set [0..<Suc (Suc k)].
        replace_with_pixels (st0\<lparr>replaced := grids lv' ! i\<rparr>) = Inr (frames lv' ! i)"
    proof
      fix i assume "i \<in> set [0..<Suc (Suc k)]"
      then consider "i < Suc k" | "i = Suc k" by force
      then show "replace_with_pixels (st0\<lparr>replaced := grids lv' ! i\<rparr>) = Inr (frames lv' ! i)"
      proof cases
        case 1
        then have "grids lv' ! i = grids lv ! i" "frames lv' ! i = frames lv ! i"
          using gr fr by (simp_all add: lv'_def nth_append)
        moreover have "i \<in> set [0..<Suc k]" using 1 by (simp del: upt_Suc)
        then have "replace_with_pixels (st0\<lparr>replaced := grids lv ! i\<rparr>) = Inr (frames lv ! i)"
          using dec by blast
        ultimately show ?thesis by simp
      next
        case 2
        then have "grids lv' ! i = replayed st0 ?b" "frames lv' ! i = frame"
          using gr fr by (simp_all add: lv'_def nth_append)
        then show ?thesis using frame by simp
      qed
    qed
  qed
  with round show ?thesis by blast
qed

lemma swap_while_runs:
  assumes ready: "swap_ready st0" and M: "max_swaps st0 = int n * q + r"
    and q: "1 \<le> q" and r: "0 \<le> r" "r < int n" and n: "1 \<le> n"
    and inv: "swap_inv st0 q r k lv st" and k: "k \<le> Suc n"
  shows "\<exists>lv'. swap_while q lv st =
            Some (Returned lv' (st0\<lparr>replaced := replayed st0 (chunk_bound q r (Suc n))\<rparr>)) \<and>
          swap_inv st0 q r (Suc n) lv' (st0\<lparr>replaced := replayed st0 (chunk_bound q r (Suc n))\<rparr>)"
  using inv k
proof (induction "Suc n - k" arbitrary: k lv st)
  case 0
  then have k: "k = Suc n" by simp
  have st: "st = st0\<lparr>replaced := replayed st0 (chunk_bound q r k)\<rparr>"
    and num: "swap_num lv = chunk_bound q r k"
    using "0.prems"(1) unfolding swap_inv_def by blast+
  have "max_swaps st < swap_num lv"
    using M q r st num k by (simp add: chunk_bound_def algebra_simps)
  then have "swap_while q lv st = Some (Returned lv st)"
    by (subst swap_while.simps) simp
  then show ?case using "0.prems"(1) st k by auto
next
  case (Suc d)
  then have k: "k \<le> n" by simp
  have st: "st = st0\<lparr>replaced := replayed st0 (chunk_bound q r k)\<rparr>"
    and num: "swap_num lv = chunk_bound q r k"
    using Suc.prems(1) unfolding swap_inv_def by blast+
  have "int k * q \<le> int n * q" using k q by (simp add: mult_right_mono)
  then have go: "swap_num lv \<le> max_swaps st"
    using M r st num by (simp add: chunk_bound_def)
  have M0: "max_swaps st0 \<noteq> 0"
  proof -
    have "1 * 1 \<le> int n * q" using q n by (intro mult_mono) auto
    then show ?thesis using M r by simp
  qed
  have q0: "0 \<le> q" using q by simp
  obtain lv' where round: "swap_round q lv st =
            Returned lv' (st0\<lparr>replaced := replayed st0 (chunk_bound q r (Suc k))\<rparr>)"
     and inv': "swap_inv st0 q r (Suc k) lv' (st0\<lparr>replaced := replayed st0 (chunk_bound q r (Suc k))\<rparr>)"
    using swap_round_inv[OF ready M0 q0 r(1) Suc.prems(1)] by blast
  have "d = Suc n - Suc k" using Suc.hyps(2) by simp
  then obtain lv'' where "swap_while q lv' (st0\<lparr>replaced := replayed st0 (chunk_bound q r (Suc k))\<rparr>) =
            Some (Returned lv'' (st0\<lparr>replaced := replayed st0 (chunk_bound q r (Suc n))\<rparr>))"
     "swap_inv st0 q r (Suc n) lv'' (st0\<lparr>replaced := replayed st0 (chunk_bound q r (Suc n))\<rparr>)"
    using Suc.hyps(1)[OF _ inv'] k by auto
  moreover have "swap_while q lv st = swap_while q lv' (st0\<lparr>replaced := replayed st0 (chunk_bound q r (Suc k))\<rparr>)"
    by (subst swap_while.simps) (simp add: go round)
  ultimately show ?case by auto
qed

lemma swap_mode_run:
  assumes ready: "swap_ready st" and nf: "2 \<le> num_frames"
    and M: "num_frames - 1 \<le> max_swaps st"
  defines "q \<equiv> max_swaps st div (num_frames - 1)"
    and "r \<equiv> max_swaps st mod (num_frames - 1)"
    and "n \<equiv> nat (num_frames - 1)"
  shows "\<exists>lv. visualise_run num_frames sort_method st =
            Some (Returned lv (st\<lparr>replaced := replayed st (chunk_bound q r (Suc n))\<rparr>)) \<and>
          swap_inv st q r (Suc n) lv (st\<lparr>replaced := replayed st (chunk_bound q r (Suc n))\<rparr>)"
proof -
  have n: "1 \<le> n" "int n = num_frames - 1" using nf by (simp_all add: n_def)
  have r: "0 \<le> r" "r < int n" using nf n by (simp_all add: r_def)
  have "(num_frames - 1) div (num_frames - 1) \<le> max_swaps st div (num_frames - 1)"
    using M nf by (intro zdiv_mono1) auto
  then have q: "1 \<le> q"
    using nf unfolding q_def by simp
  have Meq: "max_swaps st = int n * q + r"
    unfolding q_def r_def n(2) by simp
  obtain i j t ts where sw: "swaps st = (Swap i j # t) # ts"
    using ready unfolding swap_ready_def
    by (auto split: list.splits step.splits)
  have len: "length (replaced st) = rows st" using ready by (simp add: swap_ready_def)
  have st0: "st\<lparr>replaced := replayed st 0\<rparr> = st"
    using replayed_zero[OF len] by simp
  obtain frame where frame: "replace_with_pixels st = Inr frame"
    using decode_replayed[OF ready, of 0] st0 by auto
  define lv where "lv = \<lparr>swap_num = 0, remainder = r, pos = 0, frames = [frame],
      grids = [replaced st], chunks = [], cursors = []\<rparr>"
  have inv0: "swap_inv st q r 0 lv st"
    unfolding swap_inv_def using r(1) frame st0 replayed_zero[OF len]
    by (simp add: lv_def chunk_bound_0)
  have run: "visualise_run num_frames sort_method st = swap_while q lv st"
    unfolding visualise_run_def using sw frame nf
    by (simp add: lv_def q_def r_def Let_def)
  show ?thesis
    using swap_while_runs[OF ready Meq q r n(1) inv0] run by simp
qed

lemma swap_inv_grid_row:
  assumes "swap_inv st q r k lv st'" "i \<le> k" "row < rows st"
  shows "grids lv ! i ! row =
     replay (py_slice (swaps st ! row) 0 (chunk_bound q r i)) (replaced st ! row)"
proof -
  have "grids lv = map (\<lambda>i. replayed st (chunk_bound q r i)) [0..<Suc k]"
    using assms(1) unfolding swap_inv_def by blast
  then have "grids lv ! i = replayed st (chunk_bound q r i)"
    using assms(2) by (simp del: upt_Suc)
  then show ?thesis using assms(3) by (simp add: replayed_shape)
qed

lemma swap_inv_lengths:
  assumes "swap_inv st q r k lv st'"
  shows "length (grids lv) = Suc k" "length (frames lv) = Suc k" "length (chunks lv) = k"
  using assms unfolding swap_inv_def by auto

section \<open>Properties of the frames of the first method\<close>

lemma visualise_of_run:
  "visualise_run num_frames sort_method st = Some (Returned lv st') \<Longrightarrow>
     visualise num_frames sort_method st = Some (Returned (frames lv) st')"
  by (simp add: visualise_def)

lemma py_slice_take: "0 \<le> s \<Longrightarrow> py_slice t 0 s = take (nat s) t"
  by (simp add: py_slice_def slice_bound_def min_def)

lemma swap_inv_chunk:
  assumes "swap_inv st q r k lv st'" "i < k"
  shows "chunks lv ! i = (chunk_bound q r i, chunk_bound q r (Suc i))"
proof -
  have "chunks lv = map (\<lambda>i. (chunk_bound q r i, chunk_bound q r (Suc i))) [0..<k]"
    using assms(1) unfolding swap_inv_def by blast
  then show ?thesis using assms(2) by simp
qed

lemma swap_inv_frame:
  assumes "swap_inv st q r k lv st'" "i \<le> k"
  shows "replace_with_pixels (st\<lparr>replaced := grids lv ! i\<rparr>) = Inr (frames lv ! i)"
proof -
  have "\<forall>i \<in> set [0..<Suc k].
        replace_with_pixels (st\<lparr>replaced := grids lv ! i\<rparr>) = Inr (frames lv ! i)"
    using assms(1) unfolding swap_inv_def by blast
  moreover have "i \<in> set [0..<Suc k]" using assms(2) by (simp del: upt_Suc)
  ultimately show ?thesis by blast
qed

text \<open>
  Claim C3, as amended. When the swaps of an in-place algorithm are replayed, at least as
  many steps as the frames requested less one, from a grid whose rows hold each of the
  ranks \<open>0, ..., columns - 1\<close> once, the call returns, every frame is the decoding of
  the rank grid logged with it, and every row of every such grid holds each of these
  ranks once.
\<close>

theorem swap_replay_rows_are_permutations:
  assumes ready: "swap_ready st" and nf: "2 \<le> num_frames"
    and M: "num_frames - 1 \<le> max_swaps st"
    and perm: "\<forall>row \<in> set (replaced st). mset row = mset (map int [0..<columns st])"
  shows "\<exists>lv st'. visualise_run num_frames sort_method st = Some (Returned lv st') \<and>
      visualise num_frames sort_method st = Some (Returned (frames lv) st') \<and>
      length (grids lv) = length (frames lv) \<and>
      (\<forall>k < length (frames lv).
         replace_with_pixels (st\<lparr>replaced := grids lv ! k\<rparr>) = Inr (frames lv ! k)) \<and>
      (\<forall>g \<in> set (grids lv). \<forall>row \<in> set g. mset row = mset (map int [0..<columns st]))"
proof -
  define q where "q = max_swaps st div (num_frames - 1)"
  define r where "r = max_swaps st mod (num_frames - 1)"
  define n where "n = nat (num_frames - 1)"
  obtain lv where run: "visualise_run num_frames sort_method st =
            Some (Returned lv (st\<lparr>replaced := replayed st (chunk_bound q r (Suc n))\<rparr>))"
    and inv: "swap_inv st q r (Suc n) lv (st\<lparr>replaced := replayed st (chunk_bound q r (Suc n))\<rparr>)"
    using swap_mode_run[OF ready nf M, of sort_method] unfolding q_def r_def n_def by blast
  have len: "length (grids lv) = Suc (Suc n)" "length (frames lv) = Suc (Suc n)"
    using swap_inv_lengths[OF inv] by simp_all
  have dec: "\<forall>k < length (frames lv).
         replace_with_pixels (st\<lparr>replaced := grids lv ! k\<rparr>) = Inr (frames lv ! k)"
    using swap_inv_frame[OF inv] len by simp
  have shape: "length (replaced st) = rows st" using ready by (simp add: swap_ready_def)
  have "\<forall>g \<in> set (grids lv). \<forall>row \<in> set g. mset row = mset (map int [0..<columns st])"
  proof (intro ballI)
    fix g row assume "g \<in> set (grids lv)" "row \<in> set g"
    then obtain k where k: "k < Suc (Suc n)" "g = grids lv ! k"
      using len by (auto simp: in_set_conv_nth)
    have gk: "grids lv = map (\<lambda>i. replayed st (chunk_bound q r i)) [0..<Suc (Suc n)]"
      using inv unfolding swap_inv_def by blast
    have g: "g = replayed st (chunk_bound q r k)"
      using k gk by (simp del: upt_Suc)
    then obtain i where i: "i < rows st" "row = g ! i"
      using \<open>row \<in> set g\<close> by (auto simp: in_set_conv_nth replayed_shape)
    have "mset row = mset (replaced st ! i)"
      using i g by (simp add: replayed_shape)
    moreover have "replaced st ! i \<in> set (replaced st)" using i shape by simp
    ultimately show "mset row = mset (map int [0..<columns st])" using perm by simp
  qed
  with run visualise_of_run[OF run] len dec show ?thesis by auto
qed

theorem swap_replay_rows_are_permutations_witness:
  "swap_ready demo_engine \<and> (2::int) \<le> 3 \<and> (3::int) - 1 \<le> max_swaps demo_engine \<and>
   list_all (\<lambda>row. mset row = mset (map int [0..<columns demo_engine])) (replaced demo_engine) \<and>
   (\<exists>lv st'. visualise_run 3 ''bubble_sort'' demo_engine = Some (Returned lv st') \<and>
      visualise 3 ''bubble_sort'' demo_engine = Some (Returned (frames lv) st') \<and>
      length (grids lv) = length (frames lv) \<and>
      (\<forall>k < length (frames lv).
         replace_with_pixels (demo_engine\<lparr>replaced := grids lv ! k\<rparr>) = Inr (frames lv ! k)) \<and>
      (\<forall>g \<in> set (grids lv). \<forall>row \<in> set g. mset row = mset (map int [0..<columns demo_engine])))"
proof -
  have h1: "swap_ready demo_engine" by code_simp
  have h2: "(2::int) \<le> 3" by simp
  have h3: "(3::int) - 1 \<le> max_swaps demo_engine" by (simp add: demo_engine_def)
  have h4: "\<forall>row \<in> set (replaced demo_engine). mset row = mset (map int [0..<columns demo_engine])"
    by code_simp
  show ?thesis
    using swap_replay_rows_are_permutations [OF h1 h2 h3 h4, of "''bubble_sort''"] h1 h2 h3 h4
    unfolding list_all_iff by blast
qed

text \<open>
  Claim C3, as stated, fails for the second method: splicing the sorted row \<open>0, 1\<close>
  into the row \<open>1, 0\<close> in two chunks gives, at the frame between, the row \<open>0, 0\<close>.
\<close>

theorem splice_frame_repeats_rank_counterexample:
  "(case visualise_run 3 ''counting_sort'' demo_splice of
      Some (Returned lv s) \<Rightarrow> Some (grids lv) | _ \<Rightarrow> None)
     = Some [[[1, 0]], [[0, 0]], [[0, 1]]] \<and>
   mset [0, 0] \<noteq> mset (map int [0..<columns demo_splice])"
  by code_simp



text \<open>
  Claim C6, as amended. When the swaps are replayed with a first trace that is not empty,
  no row raises an error, whatever the length of its trace: after each chunk the row is
  the row before the sort with the steps of its trace up to the end of the chunk applied,
  all of them when the trace ends before; and a chunk that starts at or after the end of
  the row's trace leaves the row as it is.
\<close>

theorem swap_replay_tolerates_short_traces:
  assumes ready: "swap_ready st" and nf: "2 \<le> num_frames"
    and M: "num_frames - 1 \<le> max_swaps st"
    and row: "row < rows st"
  shows "\<exists>lv st'. visualise_run num_frames sort_method st = Some (Returned lv st') \<and>
      visualise num_frames sort_method st = Some (Returned (frames lv) st') \<and>
      length (grids lv) = Suc (length (chunks lv)) \<and>
      (\<forall>k < length (chunks lv).
         grids lv ! Suc k ! row =
           replay (take (nat (snd (chunks lv ! k))) (swaps st ! row)) (replaced st ! row)) \<and>
      (\<forall>k < length (chunks lv).
         int (length (swaps st ! row)) \<le> fst (chunks lv ! k) \<longrightarrow>
           grids lv ! Suc k ! row = grids lv ! k ! row)"
proof -
  define q where "q = max_swaps st div (num_frames - 1)"
  define r where "r = max_swaps st mod (num_frames - 1)"
  define n where "n = nat (num_frames - 1)"
  obtain lv where run: "visualise_run num_frames sort_method st =
            Some (Returned lv (st\<lparr>replaced := replayed st (chunk_bound q r (Suc n))\<rparr>))"
    and inv: "swap_inv st q r (Suc n) lv (st\<lparr>replaced := replayed st (chunk_bound q r (Suc n))\<rparr>)"
    using swap_mode_run[OF ready nf M, of sort_method] unfolding q_def r_def n_def by blast
  have len: "length (grids lv) = Suc (Suc n)" "length (chunks lv) = Suc n"
    using swap_inv_lengths[OF inv] by simp_all
  have qr: "0 \<le> r" "0 \<le> q"
    using nf M by (simp_all add: q_def r_def pos_imp_zdiv_nonneg_iff)
  have bound: "0 \<le> chunk_bound q r k" "chunk_bound q r k \<le> chunk_bound q r (Suc k)" for k
    using chunk_bound_nonneg[OF qr(2,1)] chunk_bound_mono[OF qr(2)] by simp_all
  have grid: "grids lv ! k ! row =
      replay (take (nat (chunk_bound q r k)) (swaps st ! row)) (replaced st ! row)"
    if "k \<le> Suc n" for k
    using swap_inv_grid_row[OF inv that row] bound(1)[of k] by (simp add: py_slice_take)
  have a: "\<forall>k < length (chunks lv).
         grids lv ! Suc k ! row =
           replay (take (nat (snd (chunks lv ! k))) (swaps st ! row)) (replaced st ! row)"
    using grid swap_inv_chunk[OF inv] len by simp
  have b: "\<forall>k < length (chunks lv).
         int (length (swaps st ! row)) \<le> fst (chunks lv ! k) \<longrightarrow>
           grids lv ! Suc k ! row = grids lv ! k ! row"
  proof (intro allI impI)
    fix k assume k: "k < length (chunks lv)"
      and past: "int (length (swaps st ! row)) \<le> fst (chunks lv ! k)"
    have "chunks lv ! k = (chunk_bound q r k, chunk_bound q r (Suc k))"
      using swap_inv_chunk[OF inv] k len by simp
    then have "int (length (swaps st ! row)) \<le> chunk_bound q r k" using past by simp
    then have "length (swaps st ! row) \<le> nat (chunk_bound q r k)"
      "length (swaps st ! row) \<le> nat (chunk_bound q r (Suc k))"
      using bound(2)[of k] by linarith+
    then show "grids lv ! Suc k ! row = grids lv ! k ! row"
      using grid[of k] grid[of "Suc k"] k len by simp
  qed
  show ?thesis
    using run visualise_of_run[OF run] len a b by auto
qed

theorem swap_replay_tolerates_short_traces_witness:
  "swap_ready demo_engine \<and> (2::int) \<le> 3 \<and> (3::int) - 1 \<le> max_swaps demo_engine \<and>
   1 < rows demo_engine \<and> swaps demo_engine ! 1 = [] \<and>
   (\<exists>lv st'. visualise_run 3 ''bubble_sort'' demo_engine = Some (Returned lv st') \<and>
      visualise 3 ''bubble_sort'' demo_engine = Some (Returned (frames lv) st') \<and>
      length (grids lv) = Suc (length (chunks lv)) \<and>
      (\<forall>k < length (chunks lv).
         grids lv ! Suc k ! 1 =
           replay (take (nat (snd (chunks lv ! k))) (swaps demo_engine ! 1)) (replaced demo_engine ! 1)) \<and>
      (\<forall>k < length (chunks lv).
         int (length (swaps demo_engine ! 1)) \<le> fst (chunks lv ! k) \<longrightarrow>
           grids lv ! Suc k ! 1 = grids lv ! k ! 1))"
proof -
  have h1: "swap_ready demo_engine" by code_simp
  have h2: "(2::int) \<le> 3" by simp
  have h3: "(3::int) - 1 \<le> max_swaps demo_engine" by (simp add: demo_engine_def)
  have h4: "1 < rows demo_engine" by (simp add: demo_engine_def)
  have h5: "swaps demo_engine ! 1 = []" by (simp add: demo_engine_def)
  show ?thesis
    using swap_replay_tolerates_short_traces [OF h1 h2 h3 h4, of "''bubble_sort''"]
      h1 h2 h3 h4 h5
    by blast
qed

text \<open>
  Claim C6, as stated, fails for the second method: a row whose trace is empty is assigned
  an empty run of values where the first row's slice has two, which raises ValueError
  while the first chunk is spliced.
\<close>

theorem splice_short_row_raises_counterexample:
  "(case visualise 3 ''counting_sort'' demo_uneven of
      Some (Raised e s) \<Rightarrow> Some (e, replaced s) | _ \<Rightarrow> None)
     = Some (ValueError, [[0, 1, 1, 0], [0, 1, 2, 3]])"
  by code_simp

section \<open>The loops, whenever they return\<close>

lemma swap_while_rule:
  assumes run: "swap_while q lv0 st0 = Some (Returned lv' st')"
    and init: "I lv0 st0"
    and step: "\<And>lv st lv1 st1. I lv st \<Longrightarrow> swap_num lv \<le> max_swaps st \<Longrightarrow>
       swap_round q lv st = Returned lv1 st1 \<Longrightarrow> I lv1 st1"
  shows "I lv' st' \<and> \<not> swap_num lv' \<le> max_swaps st'"
proof -
  let ?P = "\<lambda>s lv st out. s = q \<longrightarrow> I lv st \<longrightarrow> out = Returned lv' st' \<longrightarrow>
      I lv' st' \<and> \<not> swap_num lv' \<le> max_swaps st'"
  have "?P q lv0 st0 (Returned lv' st')"
  proof (rule swap_while.raw_induct[where P = ?P, OF _ run])
    fix f s lv st out
    assume IH: "\<And>s lv st out. f s lv st = Some out \<Longrightarrow> ?P s lv st out"
      and body: "(if swap_num lv \<le> max_swaps st
          then case swap_round s lv st of Raised e s \<Rightarrow> Some (Raised e s)
               | Returned lv' st' \<Rightarrow> f s lv' st'
          else Some (Returned lv st)) = Some out"
    show "?P s lv st out"
    proof (intro impI)
      assume s: "s = q" and I: "I lv st" and out: "out = Returned lv' st'"
      show "I lv' st' \<and> \<not> swap_num lv' \<le> max_swaps st'"
      proof (cases "swap_num lv \<le> max_swaps st")
        case False
        then show ?thesis using body I out by simp
      next
        case True
        show ?thesis
        proof (cases "swap_round s lv st")
          case (Raised e s')
          then show ?thesis using body True out by simp
        next
          case (Returned lv1 st1)
          then have "f s lv1 st1 = Some out" using body True by simp
          moreover have "I lv1 st1" using step[OF I True] Returned s by simp
          ultimately show ?thesis using IH s out by blast
        qed
      qed
    qed
  qed
  then show ?thesis using init by blast
qed

lemma splice_while_rule:
  assumes run: "splice_while q lv0 st0 = Some (Returned lv' st')"
    and init: "I lv0 st0"
    and step: "\<And>lv st lv1 st1. I lv st \<Longrightarrow> swap_num lv < max_swaps st \<Longrightarrow>
       splice_round q lv st = Returned lv1 st1 \<Longrightarrow> I lv1 st1"
  shows "I lv' st' \<and> \<not> swap_num lv' < max_swaps st'"
proof -
  let ?P = "\<lambda>s lv st out. s = q \<longrightarrow> I lv st \<longrightarrow> out = Returned lv' st' \<longrightarrow>
      I lv' st' \<and> \<not> swap_num lv' < max_swaps st'"
  have "?P q lv0 st0 (Returned lv' st')"
  proof (rule splice_while.raw_induct[where P = ?P, OF _ run])
    fix f s lv st out
    assume IH: "\<And>s lv st out. f s lv st = Some out \<Longrightarrow> ?P s lv st out"
      and body: "(if swap_num lv < max_swaps st
          then case splice_round s lv st of Raised e s \<Rightarrow> Some (Raised e s)
               | Returned lv' st' \<Rightarrow> f s lv' st'
          else Some (Returned lv st)) = Some out"
    show "?P s lv st out"
    proof (intro impI)
      assume s: "s = q" and I: "I lv st" and out: "out = Returned lv' st'"
      show "I lv' st' \<and> \<not> swap_num lv' < max_swaps st'"
      proof (cases "swap_num lv < max_swaps st")
        case False
        then show ?thesis using body I out by simp
      next
        case True
        show ?thesis
        proof (cases "splice_round s lv st")
          case (Raised e s')
          then show ?thesis using body True out by simp
        next
          case (Returned lv1 st1)
          then have "f s lv1 st1 = Some out" using body True by simp
          moreover have "I lv1 st1" using step[OF I True] Returned s by simp
          ultimately show ?thesis using IH s out by blast
        qed
      qed
    qed
  qed
  then show ?thesis using init by blast
qed

lemma grid_only_refl [simp]: "grid_only st st"
  by (simp add: grid_only_def)

lemma grid_only_trans: "grid_only a b \<Longrightarrow> grid_only b c \<Longrightarrow> grid_only a c"
  unfolding grid_only_def
  by (metis (no_types) engine.surjective engine.update_convs(4))

lemma grid_only_update [simp]: "grid_only st (st\<lparr>replaced := g\<rparr>)"
  by (simp add: grid_only_def)

lemma grid_only_fields:
  assumes "grid_only st st'"
  shows "swaps st' = swaps st" "max_swaps st' = max_swaps st" "rows st' = rows st"
    "columns st' = columns st" "replace_dict st' = replace_dict st"
    "sorting_methods st' = sorting_methods st" "original st' = original st"
proof -
  have e: "st' = st\<lparr>replaced := replaced st'\<rparr>" using assms by (simp add: grid_only_def)
  show "swaps st' = swaps st" by (subst e) simp
  show "max_swaps st' = max_swaps st" by (subst e) simp
  show "rows st' = rows st" by (subst e) simp
  show "columns st' = columns st" by (subst e) simp
  show "replace_dict st' = replace_dict st" by (subst e) simp
  show "sorting_methods st' = sorting_methods st" by (subst e) simp
  show "original st' = original st" by (subst e) simp
qed

lemma swap_cells_grid_only: "swap_cells row i j st = Returned u st' \<Longrightarrow> grid_only st st'"
  by (auto simp: swap_cells_def Let_def split: if_splits option.splits)

lemma swap_each_grid_only: "swap_each row t st = Returned u st' \<Longrightarrow> grid_only st st'"
proof (induction row t st rule: swap_each.induct)
  case (1 row st)
  then show ?case by simp
next
  case (2 row v rest st)
  then show ?case by simp
next
  case (3 row i j rest st)
  then show ?case
    by (auto split: outcome.splits dest: swap_cells_grid_only intro: grid_only_trans)
qed

lemma swap_pixels_grid_only: "swap_pixels row a b st = Returned u st' \<Longrightarrow> grid_only st st'"
  by (auto simp: swap_pixels_def split: if_splits dest: swap_each_grid_only)

lemma set_slice_grid_only: "set_slice row lo hi vals st = Returned u st' \<Longrightarrow> grid_only st st'"
  by (auto simp: set_slice_def Let_def split: if_splits option.splits)

lemma splice_row_grid_only:
  "splice_row p pe a b row st = Returned u st' \<Longrightarrow> grid_only st st'"
  by (auto simp: splice_row_def Let_def split: if_splits outcome.splits
      dest!: set_slice_grid_only intro: grid_only_trans)

lemma for_rows_grid_only:
  assumes "\<And>row s u s'. body row s = Returned u s' \<Longrightarrow> grid_only s s'"
    and "for_rows body rs st = Returned u st'"
  shows "grid_only st st'"
  using assms(2)
proof (induction rs arbitrary: st)
  case Nil
  then show ?case by simp
next
  case (Cons row rs)
  then show ?case
    by (auto split: outcome.splits dest!: assms(1) intro: grid_only_trans)
qed

lemma swap_round_Returned:
  assumes "swap_round q lv st = Returned lv' st'"
  shows "grid_only st st'"
    and "swap_num lv' = swap_num lv + q + (if remainder lv > 0 then 1 else 0)"
    and "remainder lv' = (if remainder lv > 0 then remainder lv - 1 else remainder lv)"
    and "chunks lv' = chunks lv @ [(swap_num lv, swap_num lv')]"
    and "grids lv' = grids lv @ [replaced st']"
    and "\<exists>frame. replace_with_pixels st' = Inr frame \<and> frames lv' = frames lv @ [frame]"
    and "pos lv' = pos lv" and "cursors lv' = cursors lv"
proof -
  let ?b = "swap_num lv + q + (if remainder lv > 0 then 1 else 0)"
  obtain u frame where rows: "for_rows (\<lambda>row. swap_pixels row (swap_num lv) ?b) [0..<rows st] st
       = Returned u st'"
    and frame: "replace_with_pixels st' = Inr frame"
    and lv': "lv' = lv\<lparr>swap_num := ?b,
        remainder := (if remainder lv > 0 then remainder lv - 1 else remainder lv),
        frames := frames lv @ [frame], grids := grids lv @ [replaced st'],
        chunks := chunks lv @ [(swap_num lv, ?b)]\<rparr>"
    using assms unfolding swap_round_def Let_def
    by (auto split: outcome.splits sum.splits if_splits)
  show "grid_only st st'"
    using rows by (rule for_rows_grid_only[rotated]) (rule swap_pixels_grid_only)
  show "swap_num lv' = ?b" by (simp add: lv')
  show "remainder lv' = (if remainder lv > 0 then remainder lv - 1 else remainder lv)"
    by (simp add: lv')
  show "chunks lv' = chunks lv @ [(swap_num lv, swap_num lv')]" by (simp add: lv')
  show "grids lv' = grids lv @ [replaced st']" by (simp add: lv')
  show "\<exists>frame. replace_with_pixels st' = Inr frame \<and> frames lv' = frames lv @ [frame]"
    using frame by (simp add: lv')
  show "pos lv' = pos lv" by (simp add: lv')
  show "cursors lv' = cursors lv" by (simp add: lv')
qed

lemma splice_round_Returned:
  assumes "splice_round q lv st = Returned lv' st'"
  shows "grid_only st st'"
    and "swap_num lv' = swap_num lv + q + (if remainder lv > 0 then 1 else 0)"
    and "remainder lv' = (if remainder lv > 0 then remainder lv - 1 else remainder lv)"
    and "chunks lv' = chunks lv @ [(swap_num lv, swap_num lv')]"
    and "grids lv' = grids lv @ [replaced st']"
    and "\<exists>frame. replace_with_pixels st' = Inr frame \<and> frames lv' = frames lv @ [frame]"
    and "swaps st \<noteq> []" and "columns st \<noteq> 0"
    and "pos lv' = (pos lv + int (length (py_slice (hd (swaps st)) (swap_num lv) (swap_num lv'))))
           mod int (columns st)"
    and "cursors lv' = cursors lv @ [pos lv']"
    and "for_rows (splice_row (pos lv) (pos lv') (swap_num lv) (swap_num lv')) [0..<rows st] st
           = Returned () st'"
proof -
  let ?b = "swap_num lv + q + (if remainder lv > 0 then 1 else 0)"
  obtain t0 ts where sw: "swaps st = t0 # ts" and C: "columns st \<noteq> 0"
    using assms unfolding splice_round_def Let_def
    by (auto split: list.splits if_splits)
  let ?pe = "(pos lv + int (length (py_slice t0 (swap_num lv) ?b))) mod int (columns st)"
  obtain frame where rows: "for_rows (splice_row (pos lv) ?pe (swap_num lv) ?b) [0..<rows st] st
       = Returned () st'"
    and frame: "replace_with_pixels st' = Inr frame"
    and lv': "lv' = lv\<lparr>swap_num := ?b,
        remainder := (if remainder lv > 0 then remainder lv - 1 else remainder lv),
        pos := ?pe,
        frames := frames lv @ [frame], grids := grids lv @ [replaced st'],
        chunks := chunks lv @ [(swap_num lv, ?b)], cursors := cursors lv @ [?pe]\<rparr>"
    using assms sw C unfolding splice_round_def Let_def
    by (auto split: outcome.splits sum.splits)
  show "grid_only st st'"
    using rows by (rule for_rows_grid_only[rotated]) (rule splice_row_grid_only)
  show "swap_num lv' = ?b" by (simp add: lv')
  show "remainder lv' = (if remainder lv > 0 then remainder lv - 1 else remainder lv)"
    by (simp add: lv')
  show "chunks lv' = chunks lv @ [(swap_num lv, swap_num lv')]" by (simp add: lv')
  show "grids lv' = grids lv @ [replaced st']" by (simp add: lv')
  show "\<exists>frame. replace_with_pixels st' = Inr frame \<and> frames lv' = frames lv @ [frame]"
    using frame by (simp add: lv')
  show "swaps st \<noteq> []" using sw by simp
  show "columns st \<noteq> 0" by (rule C)
  show "pos lv' = (pos lv + int (length (py_slice (hd (swaps st)) (swap_num lv) (swap_num lv'))))
           mod int (columns st)" by (simp add: lv' sw)
  show "cursors lv' = cursors lv @ [pos lv']" by (simp add: lv')
  show "for_rows (splice_row (pos lv) (pos lv') (swap_num lv) (swap_num lv')) [0..<rows st] st
           = Returned () st'" using rows by (simp add: lv')
qed

lemma ctrl_inv_step:
  assumes "ctrl_inv q r k lv"
    and "swap_num lv' = swap_num lv + q + (if remainder lv > 0 then 1 else 0)"
    and "remainder lv' = (if remainder lv > 0 then remainder lv - 1 else remainder lv)"
    and "chunks lv' = chunks lv @ [(swap_num lv, swap_num lv')]"
  shows "ctrl_inv q r (Suc k) lv'"
  using assms unfolding ctrl_inv_def
  by (simp add: chunk_bound_Suc max_def)

lemma trunc_div_nonneg: "0 \<le> a \<Longrightarrow> 0 < b \<Longrightarrow> trunc_div a b = a div b"
  by (cases "a = 0") (simp_all add: trunc_div_def)

lemma visualise_run_cases:
  assumes "swaps st \<noteq> []" and "visualise_run nf m st = Some (Returned lv st')"
  obtains (swap) frame i j t ts where "swaps st = (Swap i j # t) # ts"
      "replace_with_pixels st = Inr frame" "nf - 1 \<noteq> 0"
      "swap_while (max_swaps st div (nf - 1))
         \<lparr>swap_num = 0, remainder = max_swaps st mod (nf - 1), pos = 0, frames = [frame],
          grids = [replaced st], chunks = [], cursors = []\<rparr> st = Some (Returned lv st')"
  | (splice) frame v t ts where "swaps st = (Val v # t) # ts"
      "replace_with_pixels st = Inr frame" "nf - 1 \<noteq> 0"
      "splice_while (trunc_div (max_swaps st) (nf - 1))
         \<lparr>swap_num = 0, remainder = max_swaps st mod (nf - 1), pos = 0, frames = [frame],
          grids = [replaced st], chunks = [], cursors = []\<rparr> st = Some (Returned lv st')"
proof -
  obtain frame where frame: "replace_with_pixels st = Inr frame"
    using assms unfolding visualise_run_def Let_def by (auto split: sum.splits)
  obtain t0 ts where sw: "swaps st = t0 # ts" using assms(1) by (cases "swaps st") auto
  obtain s t where t0: "t0 = s # t"
    using assms frame sw unfolding visualise_run_def Let_def by (cases t0) auto
  have n: "nf - 1 \<noteq> 0"
    using assms frame sw t0 unfolding visualise_run_def Let_def
    by (cases s) (auto split: if_splits)
  show ?thesis
  proof (cases s)
    case (Swap i j)
    then show ?thesis
      using assms frame sw t0 n swap[of i j t ts frame] unfolding visualise_run_def Let_def
      by simp
  next
    case (Val v)
    then show ?thesis
      using assms frame sw t0 n splice[of v t ts frame] unfolding visualise_run_def Let_def
      by simp
  qed
qed

lemma chunk_bound_strict: "1 \<le> q \<Longrightarrow> chunk_bound q r k < chunk_bound q r (Suc k)"
  by (simp add: chunk_bound_Suc)

lemma chunk_bound_less_mono:
  assumes "1 \<le> q" "i < j"
  shows "chunk_bound q r i < chunk_bound q r j"
  using assms(2)
proof (induction j)
  case 0
  then show ?case by simp
next
  case (Suc j)
  then show ?case
    using chunk_bound_strict[OF assms(1), of r j] by (cases "i = j") auto
qed

lemma chunk_bound_total:
  "0 \<le> r \<Longrightarrow> r \<le> int n \<Longrightarrow> chunk_bound q r n = int n * q + r"
  by (simp add: chunk_bound_def)

lemma chunk_bound_size:
  "chunk_bound q r (Suc k) - chunk_bound q r k = (if int k < r then q + 1 else q)"
  by (simp add: chunk_bound_def algebra_simps min_def)

lemma chunk_sizes_sum:
  "sum_list (map (\<lambda>i. chunk_bound q r (Suc i) - chunk_bound q r i) [0..<n]) =
     chunk_bound q r n - chunk_bound q r 0"
  by (induction n) simp_all

lemma ctrl_inv_init:
  "0 \<le> r \<Longrightarrow> ctrl_inv q r 0
     \<lparr>swap_num = 0, remainder = r, pos = 0, frames = fs, grids = gs, chunks = [], cursors = []\<rparr>"
  by (simp add: ctrl_inv_def chunk_bound_0)

lemma swap_loop_chunks:
  assumes run: "swap_while q lv0 st0 = Some (Returned lv st')"
    and init: "ctrl_inv q r 0 lv0"
    and M: "max_swaps st0 = int n * q + r" and q: "1 \<le> q" and r: "0 \<le> r" "r < int n"
  shows "ctrl_inv q r (Suc n) lv"
proof -
  let ?M = "int n * q + r"
  define I where "I = (\<lambda>(lv::loopvars) (st::engine). max_swaps st = ?M \<and>
     (\<exists>k. ctrl_inv q r k lv \<and> (k = 0 \<or> chunk_bound q r (k - 1) \<le> ?M)))"
  have "I lv st' \<and> \<not> swap_num lv \<le> max_swaps st'"
  proof (rule swap_while_rule[OF run])
    show "I lv0 st0" unfolding I_def using init M by auto
  next
    fix lv st lv1 st1
    assume I: "I lv st" and go: "swap_num lv \<le> max_swaps st"
      and round: "swap_round q lv st = Returned lv1 st1"
    from I obtain k where k: "ctrl_inv q r k lv" and Mst: "max_swaps st = ?M"
      unfolding I_def by blast
    note eff = swap_round_Returned[OF round]
    have "ctrl_inv q r (Suc k) lv1" using ctrl_inv_step[OF k eff(2,3,4)] .
    moreover have "chunk_bound q r k \<le> ?M" using go k Mst by (simp add: ctrl_inv_def)
    moreover have "max_swaps st1 = ?M" using grid_only_fields(2)[OF eff(1)] Mst by simp
    ultimately show "I lv1 st1" unfolding I_def by auto
  qed
  then obtain k where k: "ctrl_inv q r k lv" and prev: "k = 0 \<or> chunk_bound q r (k - 1) \<le> ?M"
    and Mst: "max_swaps st' = ?M" and stop: "\<not> swap_num lv \<le> max_swaps st'"
    unfolding I_def by blast
  have total: "chunk_bound q r n = ?M" using r by (simp add: chunk_bound_total)
  have "chunk_bound q r n < chunk_bound q r k"
    using stop k Mst total by (simp add: ctrl_inv_def)
  then have "n < k"
    using chunk_bound_less_mono[OF q, of k n r] by (cases "k < n"; cases "k = n") auto
  moreover have "k - 1 \<le> n"
  proof (rule ccontr)
    assume "\<not> k - 1 \<le> n"
    then have "n < k - 1" by simp
    then have "chunk_bound q r n < chunk_bound q r (k - 1)"
      by (rule chunk_bound_less_mono[OF q])
    then show False using prev total \<open>n < k\<close> by simp
  qed
  ultimately have "k = Suc n" by simp
  then show ?thesis using k by simp
qed

lemma splice_loop_chunks:
  assumes run: "splice_while q lv0 st0 = Some (Returned lv st')"
    and init: "ctrl_inv q r 0 lv0"
    and M: "max_swaps st0 = int n * q + r" and q: "1 \<le> q" and r: "0 \<le> r" "r < int n"
  shows "ctrl_inv q r n lv"
proof -
  let ?M = "int n * q + r"
  define I where "I = (\<lambda>(lv::loopvars) (st::engine). max_swaps st = ?M \<and>
     (\<exists>k. ctrl_inv q r k lv \<and> (k = 0 \<or> chunk_bound q r (k - 1) < ?M)))"
  have "I lv st' \<and> \<not> swap_num lv < max_swaps st'"
  proof (rule splice_while_rule[OF run])
    show "I lv0 st0" unfolding I_def using init M by auto
  next
    fix lv st lv1 st1
    assume I: "I lv st" and go: "swap_num lv < max_swaps st"
      and round: "splice_round q lv st = Returned lv1 st1"
    from I obtain k where k: "ctrl_inv q r k lv" and Mst: "max_swaps st = ?M"
      unfolding I_def by blast
    note eff = splice_round_Returned[OF round]
    have "ctrl_inv q r (Suc k) lv1" using ctrl_inv_step[OF k eff(2,3,4)] .
    moreover have "chunk_bound q r k < ?M" using go k Mst by (simp add: ctrl_inv_def)
    moreover have "max_swaps st1 = ?M" using grid_only_fields(2)[OF eff(1)] Mst by simp
    ultimately show "I lv1 st1" unfolding I_def by auto
  qed
  then obtain k where k: "ctrl_inv q r k lv" and prev: "k = 0 \<or> chunk_bound q r (k - 1) < ?M"
    and Mst: "max_swaps st' = ?M" and stop: "\<not> swap_num lv < max_swaps st'"
    unfolding I_def by blast
  have total: "chunk_bound q r n = ?M" using r by (simp add: chunk_bound_total)
  have "chunk_bound q r n \<le> chunk_bound q r k"
    using stop k Mst total by (simp add: ctrl_inv_def)
  then have "n \<le> k"
    using chunk_bound_less_mono[OF q, of k n r] by (cases "k < n") auto
  moreover have "k \<le> n"
  proof (rule ccontr)
    assume "\<not> k \<le> n"
    then have "n \<le> k - 1" "k \<noteq> 0" by simp_all
    then have "chunk_bound q r n \<le> chunk_bound q r (k - 1)"
      using chunk_bound_less_mono[OF q, of n "k - 1" r] by (cases "n = k - 1") auto
    then show False using prev total \<open>k \<noteq> 0\<close> by simp
  qed
  ultimately have "k = n" by simp
  then show ?thesis using k by simp
qed

section \<open>The partition of the trace into chunks\<close>

lemma returned_ex:
  "(case x of Some (Returned a s) \<Rightarrow> True | _ \<Rightarrow> False) \<Longrightarrow> \<exists>a s. x = Some (Returned a s)"
  by (auto split: option.splits outcome.splits)

text \<open>
  Claim C2, as amended. With traces captured, at least two frames requested and the
  longest trace at least as long as the frames requested less one, whenever
  \<^verbatim>\<open>visualise\<close> returns, the first \<open>numFrames - 1\<close> chunks its loop replayed are
  contiguous from 0, their sizes sum to \<open>max_swaps\<close>, the first
  \<open>max_swaps mod (numFrames - 1)\<close> of them have the size
  \<open>max_swaps div (numFrames - 1) + 1\<close> and the others the size
  \<open>max_swaps div (numFrames - 1)\<close>; for the second method these are all its chunks.
\<close>

theorem chunk_partition:
  assumes sw: "swaps st \<noteq> []" and nf: "2 \<le> nf" and M: "nf - 1 \<le> max_swaps st"
    and run: "visualise_run nf m st = Some (Returned lv st')"
  shows "let n = nat (nf - 1); q = max_swaps st div (nf - 1); r = max_swaps st mod (nf - 1);
             cs = take n (chunks lv)
         in length cs = n \<and>
            (\<forall>k<n. fst (cs ! k) = (if k = 0 then 0 else snd (cs ! (k - 1)))) \<and>
            (\<forall>k<n. snd (cs ! k) - fst (cs ! k) = (if int k < r then q + 1 else q)) \<and>
            sum_list (map (\<lambda>c. snd c - fst c) cs) = max_swaps st \<and>
            ((\<exists>v t ts. swaps st = (Val v # t) # ts) \<longrightarrow> chunks lv = cs)"
proof -
  define n where "n = nat (nf - 1)"
  define q where "q = max_swaps st div (nf - 1)"
  define r where "r = max_swaps st mod (nf - 1)"
  define cs where "cs = take n (chunks lv)"
  let ?b = "chunk_bound q r"
  have n: "int n = nf - 1" "1 \<le> n" using nf by (simp_all add: n_def)
  have r: "0 \<le> r" "r < int n" using nf n by (simp_all add: r_def)
  have "(nf - 1) div (nf - 1) \<le> max_swaps st div (nf - 1)"
    using M nf by (intro zdiv_mono1) auto
  then have q: "1 \<le> q" using nf by (simp add: q_def)
  have Meq: "max_swaps st = int n * q + r" unfolding q_def r_def n(1) by simp
  have M0: "0 \<le> max_swaps st" using M nf by simp
  have tq: "trunc_div (max_swaps st) (nf - 1) = q"
    using trunc_div_nonneg[OF M0, of "nf - 1"] nf by (simp add: q_def)
  have log: "\<exists>k. ctrl_inv q r k lv \<and> n \<le> k \<and>
      ((\<exists>v t ts. swaps st = (Val v # t) # ts) \<longrightarrow> k = n)"
    using sw run
  proof (cases rule: visualise_run_cases)
    case (swap frame i j t ts)
    have "ctrl_inv q r (Suc n) lv"
      using swap(4) unfolding q_def[symmetric] r_def[symmetric]
      by (rule swap_loop_chunks[OF _ ctrl_inv_init[OF r(1)] Meq q r])
    then show ?thesis using swap(1) by auto
  next
    case (splice frame v t ts)
    have "ctrl_inv q r n lv"
      using splice(4) unfolding tq r_def[symmetric]
      by (rule splice_loop_chunks[OF _ ctrl_inv_init[OF r(1)] Meq q r])
    then show ?thesis by auto
  qed
  then obtain k where k: "ctrl_inv q r k lv" "n \<le> k"
    and exact: "(\<exists>v t ts. swaps st = (Val v # t) # ts) \<longrightarrow> k = n" by blast
  have ch: "chunks lv = map (\<lambda>i. (?b i, ?b (Suc i))) [0..<k]"
    using k(1) by (simp add: ctrl_inv_def)
  have cs: "cs = map (\<lambda>i. (?b i, ?b (Suc i))) [0..<n]"
    unfolding cs_def ch using k(2) by (simp add: take_map)
  have a: "length cs = n" by (simp add: cs)
  have b: "\<forall>k<n. fst (cs ! k) = (if k = 0 then 0 else snd (cs ! (k - 1)))"
    using r(1) by (auto simp: cs chunk_bound_0)
  have c: "\<forall>k<n. snd (cs ! k) - fst (cs ! k) = (if int k < r then q + 1 else q)"
    by (simp add: cs chunk_bound_size)
  have "sum_list (map (\<lambda>c. snd c - fst c) cs) = ?b n - ?b 0"
    unfolding cs using chunk_sizes_sum[of q r n] by (simp add: comp_def)
  then have d: "sum_list (map (\<lambda>c. snd c - fst c) cs) = max_swaps st"
    using r by (simp add: chunk_bound_total chunk_bound_0 Meq)
  have e: "(\<exists>v t ts. swaps st = (Val v # t) # ts) \<longrightarrow> chunks lv = cs"
    using exact ch cs by auto
  show ?thesis
    using a b c d e unfolding Let_def n_def[symmetric] q_def[symmetric] r_def[symmetric]
      cs_def[symmetric] by blast
qed

theorem chunk_partition_witness:
  "swaps demo_splice \<noteq> [] \<and> (2::int) \<le> 3 \<and> (3::int) - 1 \<le> max_swaps demo_splice \<and>
   (\<exists>lv st'. visualise_run 3 ''counting_sort'' demo_splice = Some (Returned lv st') \<and>
     (let n = nat (3 - 1); q = max_swaps demo_splice div (3 - 1);
          r = max_swaps demo_splice mod (3 - 1); cs = take n (chunks lv)
      in length cs = n \<and>
         (\<forall>k<n. fst (cs ! k) = (if k = 0 then 0 else snd (cs ! (k - 1)))) \<and>
         (\<forall>k<n. snd (cs ! k) - fst (cs ! k) = (if int k < r then q + 1 else q)) \<and>
         sum_list (map (\<lambda>c. snd c - fst c) cs) = max_swaps demo_splice \<and>
         ((\<exists>v t ts. swaps demo_splice = (Val v # t) # ts) \<longrightarrow> chunks lv = cs)))"
proof -
  have h1: "swaps demo_splice \<noteq> []" by (simp add: demo_splice_def)
  have h2: "(2::int) \<le> 3" by simp
  have h3: "(3::int) - 1 \<le> max_swaps demo_splice" by (simp add: demo_splice_def)
  have "case visualise_run 3 ''counting_sort'' demo_splice of
          Some (Returned a s) \<Rightarrow> True | _ \<Rightarrow> False" by code_simp
  then obtain lv st' where
    run: "visualise_run 3 ''counting_sort'' demo_splice = Some (Returned lv st')"
    using returned_ex by blast
  show ?thesis
    using chunk_partition [OF h1 h2 h3 run] run h1 h2 h3 by blast
qed

text \<open>
  Claim C2, as stated, fails: with a longest trace of one step and three frames requested,
  the second loop replays one chunk, not two, and two frames are returned.
\<close>

theorem splice_fewer_chunks_counterexample:
  "(case visualise_run 3 ''counting_sort'' demo_short of
      Some (Returned lv s) \<Rightarrow> Some (max_swaps s, chunks lv, length (frames lv)) | _ \<Rightarrow> None)
     = Some (1, [(0, 1)], 2)"
  by code_simp

section \<open>The write cursor of the second method\<close>



text \<open>A chunk writes inside its window only.\<close>

lemma window_only_refl [simp]: "window_only p pe g g"
  by (simp add: window_only_def)












section \<open>The number of frames\<close>

text \<open>In the first method, with valid swaps and at least one swap per chunk, the call
  returns one frame more than requested.\<close>

lemma swap_mode_frame_count:
  assumes "swap_ready st" and "2 \<le> num_frames" and "num_frames - 1 \<le> max_swaps st"
  shows "\<exists>fs st'. visualise num_frames sort_method st = Some (Returned fs st') \<and>
           int (length fs) = num_frames + 1"
proof -
  obtain lv st' where run: "visualise_run num_frames sort_method st = Some (Returned lv st')"
    and inv: "swap_inv st (max_swaps st div (num_frames - 1)) (max_swaps st mod (num_frames - 1))
                (Suc (nat (num_frames - 1))) lv st'"
    using swap_mode_run[OF assms, of sort_method] by blast
  have "length (frames lv) = Suc (Suc (nat (num_frames - 1)))"
    using swap_inv_lengths(2)[OF inv] .
  then have "int (length (frames lv)) = num_frames + 1" using assms(2) by simp
  then show ?thesis using run by (simp add: visualise_def)
qed

text \<open>With fewer swaps than chunks the step of the first loop is 0: after the remainder is
  used up \<open>swap_num\<close> stays at \<open>max_swaps\<close> and the loop never ends.\<close>

lemma swap_while_diverges:
  assumes ready: "swap_ready st0" and M: "0 < max_swaps st0"
    and inv: "swap_inv st0 0 (max_swaps st0) k lv st"
  shows "swap_while 0 lv st = None"
proof (rule ccontr)
  assume "swap_while 0 lv st \<noteq> None"
  then obtain res where run: "swap_while 0 lv st = Some res" by auto
  let ?P = "\<lambda>(s::int) (lv::loopvars) (st::engine) (out::loopvars outcome). s = 0 \<longrightarrow>
      (\<forall>k. \<not> swap_inv st0 0 (max_swaps st0) k lv st)"
  have "?P (0::int) lv st res"
  proof (rule swap_while.raw_induct[where P = ?P, OF _ run])
    fix f s lv st out
    assume IH: "\<And>s lv st out. f s lv st = Some out \<Longrightarrow> ?P s lv st out"
      and body: "(if swap_num lv \<le> max_swaps st
          then case swap_round s lv st of Raised e s \<Rightarrow> Some (Raised e s)
               | Returned lv' st' \<Rightarrow> f s lv' st'
          else Some (Returned lv st)) = Some out"
    show "?P s lv st out"
    proof (intro impI allI notI)
      fix k assume s: "s = 0" and I: "swap_inv st0 0 (max_swaps st0) k lv st"
      have st: "st = st0\<lparr>replaced := replayed st0 (chunk_bound 0 (max_swaps st0) k)\<rparr>"
        and num: "swap_num lv = chunk_bound 0 (max_swaps st0) k"
        using I unfolding swap_inv_def by blast+
      have go: "swap_num lv \<le> max_swaps st"
        using num st by (simp add: chunk_bound_def)
      obtain lv1 where round: "swap_round 0 lv st =
            Returned lv1 (st0\<lparr>replaced := replayed st0 (chunk_bound 0 (max_swaps st0) (Suc k))\<rparr>)"
        and inv1: "swap_inv st0 0 (max_swaps st0) (Suc k) lv1
            (st0\<lparr>replaced := replayed st0 (chunk_bound 0 (max_swaps st0) (Suc k))\<rparr>)"
        using swap_round_inv[OF ready _ _ _ I] M by auto
      have "f s lv1 (st0\<lparr>replaced := replayed st0 (chunk_bound 0 (max_swaps st0) (Suc k))\<rparr>) = Some out"
        using body go round s by simp
      from IH[OF this] s inv1 show False by blast
    qed
  qed
  then show False using inv by blast
qed

lemma swap_mode_never_returns:
  assumes ready: "swap_ready st" and nf: "2 \<le> num_frames"
    and M: "0 < max_swaps st" "max_swaps st < num_frames - 1"
  shows "visualise num_frames sort_method st = None"
proof -
  obtain i j t ts where sw: "swaps st = (Swap i j # t) # ts"
    using ready unfolding swap_ready_def
    by (auto split: list.splits step.splits)
  have len: "length (replaced st) = rows st" using ready by (simp add: swap_ready_def)
  have st0: "st\<lparr>replaced := replayed st 0\<rparr> = st"
    using replayed_zero[OF len] by simp
  obtain frame where frame: "replace_with_pixels st = Inr frame"
    using decode_replayed[OF ready, of 0] st0 by auto
  let ?lv = "\<lparr>swap_num = 0, remainder = max_swaps st mod (num_frames - 1), pos = 0,
              frames = [frame], grids = [replaced st], chunks = [], cursors = []\<rparr>"
  have md: "max_swaps st mod (num_frames - 1) = max_swaps st"
      "max_swaps st div (num_frames - 1) = 0"
    using M by simp_all
  have "swap_inv st 0 (max_swaps st) 0 ?lv st"
    unfolding swap_inv_def using M(1) frame st0 replayed_zero[OF len]
    by (simp add: md chunk_bound_0)
  from swap_while_diverges[OF ready M(1) this]
  show ?thesis
    using sw frame nf M md by (simp add: visualise_def visualise_run_def Let_def)
qed

text \<open>
  Claim C1 fails on a row \<open>3, 1, 2, 0\<close> with the five swaps of a bubble sort and three
  frames requested: the first loop runs while \<open>swap_num \<le> max_swaps\<close>, one round more
  than the chunks, and four frames are returned.
\<close>

theorem swap_replay_one_frame_too_many:
  "(case visualise 3 ''bubble_sort'' demo_scenario of
      Some (Returned fs s) \<Rightarrow> Some (length fs, replaced s) | _ \<Rightarrow> None)
     = Some (4, [[0, 1, 2, 3]])"
  by code_simp

text \<open>
  Claim C7 fails when every trace is empty: the first element of the first trace is read
  to choose the method, which raises IndexError after the first frame was decoded; no
  frame is returned.
\<close>

theorem empty_traces_raise_index_error:
  "max_swaps demo_sorted = 0 \<and>
   (case visualise 5 ''bubble_sort'' demo_sorted of
      Some (Raised e s) \<Rightarrow> Some (e, replaced s) | _ \<Rightarrow> None)
     = Some (IndexError, [[0, 1, 2]])"
  by code_simp

section \<open>Errors of configuration\<close>

text \<open>
  Claim C9, as amended. A name that is not in the table of sorting functions makes
  \<^verbatim>\<open>sort\<close>, on an engine with a row, raise KeyError at the first row with the engine
  as it was; and so does \<^verbatim>\<open>visualise\<close> when no trace was captured before.
\<close>

theorem unknown_sorting_method_raises_first:
  assumes "sorting_methods st m = None" and "0 < rows st" and "0 < length (replaced st)"
  shows "sort m st = Raised KeyError st \<and>
         (swaps st = [] \<longrightarrow> visualise nf m st = Some (Raised KeyError st))"
proof -
  have "[0..<rows st] = 0 # [1..<rows st]" using assms(2) by (simp add: upt_rec)
  moreover have "sort_row m 0 st = Raised KeyError st"
    using assms(1,3) by (simp add: sort_row_def)
  ultimately have s: "sort m st = Raised KeyError st" by (simp add: sort_def)
  then show ?thesis by (simp add: visualise_def visualise_run_def)
qed

theorem unknown_sorting_method_raises_first_witness:
  "sorting_methods demo_fresh ''bogo_sort'' = None \<and> 0 < rows demo_fresh \<and>
   0 < length (replaced demo_fresh) \<and> swaps demo_fresh = [] \<and>
   sort ''bogo_sort'' demo_fresh = Raised KeyError demo_fresh \<and>
   visualise 5 ''bogo_sort'' demo_fresh = Some (Raised KeyError demo_fresh)"
proof -
  have h1: "sorting_methods demo_fresh ''bogo_sort'' = None" by code_simp
  have h2: "0 < rows demo_fresh" by code_simp
  have h3: "0 < length (replaced demo_fresh)" by code_simp
  have h4: "swaps demo_fresh = []" by code_simp
  show ?thesis
    using unknown_sorting_method_raises_first [OF h1 h2 h3, of 5] h1 h2 h3 h4 by blast
qed

text \<open>
  Claim C9, as stated, fails: one frame requested from a new engine raises
  ZeroDivisionError only after \<^verbatim>\<open>sort\<close> has captured the traces and set the longest
  trace length.
\<close>

theorem one_frame_fails_after_capture_counterexample:
  "swaps demo_fresh = [] \<and> max_swaps demo_fresh = 0 \<and>
   (case visualise 1 ''bubble_sort'' demo_fresh of
      Some (Raised e s) \<Rightarrow> Some (e, swaps s, max_swaps s) | _ \<Rightarrow> None)
     = Some (ZeroDivisionError, [[Swap 0 1]], 1)"
  by code_simp

section \<open>Calling twice\<close>

lemma visualise_run_after_capture:
  assumes "visualise_run nf m st = Some (Returned lv st')"
  obtains st1 where "swaps st1 \<noteq> []" "visualise_run nf m st1 = Some (Returned lv st')"
    "swaps st \<noteq> [] \<Longrightarrow> st1 = st" "swaps st = [] \<Longrightarrow> sort m st = Returned () st1"
proof (cases "swaps st = []")
  case False
  then show ?thesis using assms that[of st] by simp
next
  case True
  then obtain st1 where s: "sort m st = Returned () st1"
    using assms unfolding visualise_run_def by (auto split: outcome.splits)
  have ne: "swaps st1 \<noteq> []"
    using assms True s unfolding visualise_run_def Let_def
    by (auto split: sum.splits list.splits)
  have "visualise_run nf m st1 = visualise_run nf m st"
    using True s ne unfolding visualise_run_def by simp
  then show ?thesis using that[of st1] ne s assms True by simp
qed

lemma run_frames:
  assumes sw: "swaps st \<noteq> []" and run: "visualise_run nf m st = Some (Returned lv st')"
  shows "grid_only st st' \<and> frames lv \<noteq> [] \<and>
     replace_with_pixels st = Inr (hd (frames lv)) \<and>
     replace_with_pixels st' = Inr (last (frames lv))"
proof -
  define I where "I = (\<lambda>(lv::loopvars) (s::engine). grid_only st s \<and> frames lv \<noteq> [] \<and>
     replace_with_pixels st = Inr (hd (frames lv)) \<and>
     replace_with_pixels s = Inr (last (frames lv)))"
  have step1: "I lv1 st1" if "I lv0 s" "swap_round q lv0 s = Returned lv1 st1" for q lv0 s lv1 st1
  proof -
    note eff = swap_round_Returned[OF that(2)]
    obtain frame where f: "replace_with_pixels st1 = Inr frame" "frames lv1 = frames lv0 @ [frame]"
      using eff(6) by blast
    have "grid_only st st1" using that(1) eff(1) unfolding I_def by (blast intro: grid_only_trans)
    then show ?thesis using that(1) f unfolding I_def by simp
  qed
  have step2: "I lv1 st1" if "I lv0 s" "splice_round q lv0 s = Returned lv1 st1" for q lv0 s lv1 st1
  proof -
    note eff = splice_round_Returned[OF that(2)]
    obtain frame where f: "replace_with_pixels st1 = Inr frame" "frames lv1 = frames lv0 @ [frame]"
      using eff(6) by blast
    have "grid_only st st1" using that(1) eff(1) unfolding I_def by (blast intro: grid_only_trans)
    then show ?thesis using that(1) f unfolding I_def by simp
  qed
  have "I lv st'"
    using sw run
  proof (cases rule: visualise_run_cases)
    case (swap frame i j t ts)
    have "I \<lparr>swap_num = 0, remainder = max_swaps st mod (nf - 1), pos = 0, frames = [frame],
          grids = [replaced st], chunks = [], cursors = []\<rparr> st"
      unfolding I_def using swap(2) by simp
    then show ?thesis
      using swap_while_rule[OF swap(4), of I] step1 by blast
  next
    case (splice frame v t ts)
    have "I \<lparr>swap_num = 0, remainder = max_swaps st mod (nf - 1), pos = 0, frames = [frame],
          grids = [replaced st], chunks = [], cursors = []\<rparr> st"
      unfolding I_def using splice(2) by simp
    then show ?thesis
      using splice_while_rule[OF splice(4), of I] step2 by blast
  qed
  then show ?thesis unfolding I_def by simp
qed

lemma visualise_Returned:
  assumes "visualise nf m st = Some (Returned fs st')"
  obtains lv where "visualise_run nf m st = Some (Returned lv st')" "fs = frames lv"
  using assms unfolding visualise_def by (auto split: option.splits outcome.splits)

text \<open>
  Claim C8, as amended. \<^verbatim>\<open>visualise\<close> replays on the rank grid of the engine and
  leaves it as the last frame shows it: when two calls in a row return, the first frame of
  the second call is the last frame of the first.
\<close>

theorem second_call_starts_from_last_frame:
  assumes first: "visualise nf m st = Some (Returned fs st')"
    and second: "visualise nf' m' st' = Some (Returned fs' st'')"
  shows "fs \<noteq> [] \<and> fs' \<noteq> [] \<and> replace_with_pixels st' = Inr (last fs) \<and> hd fs' = last fs"
proof -
  obtain lv where run: "visualise_run nf m st = Some (Returned lv st')" and fs: "fs = frames lv"
    using first by (rule visualise_Returned)
  obtain lv' where run': "visualise_run nf' m' st' = Some (Returned lv' st'')"
    and fs': "fs' = frames lv'"
    using second by (rule visualise_Returned)
  obtain st1 where st1: "swaps st1 \<noteq> []" "visualise_run nf m st1 = Some (Returned lv st')"
    using run by (rule visualise_run_after_capture)
  note a = run_frames[OF st1]
  then have "swaps st' = swaps st1" using grid_only_fields(1) by blast
  then have sw': "swaps st' \<noteq> []" using st1(1) by simp
  note b = run_frames[OF sw' run']
  show ?thesis using a b fs fs' by simp
qed

theorem second_call_starts_from_last_frame_witness:
  "\<exists>fs st' fs' st''.
     visualise 3 ''bubble_sort'' demo_scenario = Some (Returned fs st') \<and>
     visualise 3 ''bubble_sort'' st' = Some (Returned fs' st'') \<and>
     fs \<noteq> [] \<and> fs' \<noteq> [] \<and> replace_with_pixels st' = Inr (last fs) \<and> hd fs' = last fs"
proof -
  have "case visualise 3 ''bubble_sort'' demo_scenario of
          Some (Returned fs s) \<Rightarrow>
            (case visualise 3 ''bubble_sort'' s of Some (Returned fs' s') \<Rightarrow> True | _ \<Rightarrow> False)
        | _ \<Rightarrow> False" by code_simp
  then obtain fs st' where
    h1: "visualise 3 ''bubble_sort'' demo_scenario = Some (Returned fs st')" and
    inner: "case visualise 3 ''bubble_sort'' st' of Some (Returned fs' s') \<Rightarrow> True | _ \<Rightarrow> False"
    by (cases "visualise 3 ''bubble_sort'' demo_scenario")
      (auto split: outcome.splits)
  obtain fs' st'' where h2: "visualise 3 ''bubble_sort'' st' = Some (Returned fs' st'')"
    using returned_ex[OF inner] by blast
  show ?thesis
    using second_call_starts_from_last_frame [OF h1 h2] h1 h2 by blast
qed

text \<open>
  Claim C8, as stated, fails: on the row \<open>3, 1, 2, 0\<close> the second call returns other
  frames than the first, from its first frame on.
\<close>

theorem second_call_differs_counterexample:
  "(case visualise 3 ''bubble_sort'' demo_scenario of
      Some (Returned fs s) \<Rightarrow>
        (case visualise 3 ''bubble_sort'' s of
           Some (Returned fs' s') \<Rightarrow> Some (fs = fs', hd fs = hd fs', hd fs' = last fs)
         | _ \<Rightarrow> None)
    | _ \<Rightarrow> None) = Some (False, False, True)"
  by code_simp

end
